theory Spec2Isabelle
  imports Main "HOL-Library.Word" "HOL-Library.Sublist"
begin

unbundle bit_operations_syntax

section \<open>Data model\<close>

text \<open>
  The program is a Go command (package main) that builds and runs one solution file and
  compares the output file it produced with an expected output file. Two revisions of the
  program are in the repository: the older one (\<^verbatim>\<open>main.go\<close>) prints a unified diff, the
  newer one a two-column table. Both compare the two files in the same way. Where the two
  revisions have a function of the same name, the model of the older one carries the suffix
  \<open>_unified\<close> and the model of the newer one the suffix \<open>_table\<close>.

  A Go \<^verbatim>\<open>string\<close> and a Go \<^verbatim>\<open>[]byte\<close> are sequences of bytes; both are
  modelled as \<^typ>\<open>string\<close>, a list of 8-bit characters, so \<^const>\<open>length\<close> is Go's
  \<^verbatim>\<open>len\<close>. A \<^verbatim>\<open>nil\<close> slice and an empty slice are the same list \<open>[]\<close>
  (\<^verbatim>\<open>bytes.Equal\<close> does not tell them apart). Where the library computes with a byte
  it is an 8-bit word, and a \<^verbatim>\<open>rune\<close> is a 32-bit word: every rune the decoder
  produces is below \<open>0x200000\<close>, so the sign of Go's \<^verbatim>\<open>int32\<close> never matters.
  Go's \<^verbatim>\<open>int\<close> is modelled
  as \<^typ>\<open>int\<close> where it can be negative (the only such arithmetic is \<^verbatim>\<open>max-3\<close> in
  \<^verbatim>\<open>truncate\<close>, whose result is used as a slice bound, and a bound that wrapped around 64
  bits is out of range for every string a machine can hold, exactly as the negative bound
  is) and as \<^typ>\<open>nat\<close> where it is an index that only counts up from 0.

  What the program prints to standard output is modelled as the list of the texts written, one
  element for each call of \<^verbatim>\<open>fmt.Println\<close> or \<^verbatim>\<open>fmt.Printf\<close>.
\<close>

type_synonym byte = "8 word"
type_synonym rune = "32 word"

definition byte_of :: "char \<Rightarrow> byte" where
  "byte_of c = of_char c"

text \<open>
  A run-time panic is a value. The only operation of the program that can panic is the
  slice expression \<^verbatim>\<open>s[:h]\<close> in \<^verbatim>\<open>truncate\<close>: Go panics unless
  \<open>0 \<le> h \<le> len(s)\<close>. (The index expressions of the library functions below are all guarded
  by the length checks in front of them.)
\<close>

datatype panic = SliceBoundsOutOfRange

definition slice_to :: "string \<Rightarrow> int \<Rightarrow> panic + string" where
  "slice_to s h =
     (if 0 \<le> h \<and> h \<le> int (length s) then Inr (take (nat h) s)
      else Inl SliceBoundsOutOfRange)"

text \<open>
  The outcome of every call the run function makes to the operating system is a field of the
  record \<open>world\<close>: \<open>None\<close> is the \<^verbatim>\<open>nil\<close> error, \<open>Some e\<close> an error whose message is \<open>e\<close>;
  \<^verbatim>\<open>os.ReadFile\<close> returns the content of the file (\<open>Inr\<close>) or an error (\<open>Inl\<close>). The
  fields \<open>baseName\<close> and \<open>joinBuild\<close> are the results of the path computations
  \<^verbatim>\<open>strings.TrimSuffix(filepath.Base(sourceFile), filepath.Ext(sourceFile))\<close> and
  \<^verbatim>\<open>filepath.Join(buildDir, baseName)\<close>, which only appear in log lines and command
  lines, and \<open>verboseFlag\<close> is the value of the command-line flag of that name.
\<close>

record world =
  verboseFlag :: bool
  baseName :: string
  joinBuild :: string
  mkdirAll_err :: "string option"
  compile_err :: "string option"
  open_err :: "string option"
  create_err :: "string option"
  execute_err :: "string option"
  read_actual :: "string + string"
  read_expected :: "string + string"
  removeAll_err :: "string option"

section \<open>The Go library functions the program calls\<close>

text \<open>
  The comparison is \<^verbatim>\<open>bytes.Equal(bytes.TrimSpace(actual), bytes.TrimSpace(expected))\<close>,
  so what it decides depends on what the standard library takes for white space. The
  functions below follow the Go sources of the packages \<^verbatim>\<open>unicode/utf8\<close>,
  \<^verbatim>\<open>unicode\<close>, \<^verbatim>\<open>bytes\<close>, \<^verbatim>\<open>strings\<close> and \<^verbatim>\<open>fmt\<close>, statement by statement,
  under the names they have there.
\<close>

subsection \<open>Package unicode/utf8\<close>

text \<open>The constants of the decoder, and the table \<^verbatim>\<open>first\<close> that classifies a leading byte.\<close>

definition RuneError :: rune where "RuneError = 0xFFFD"

definition RuneSelf :: rune where "RuneSelf = 0x80"

definition UTFMax :: nat where "UTFMax = 4"

definition maskx :: byte where "maskx = 0x3F"

definition mask2 :: byte where "mask2 = 0x1F"

definition mask3 :: byte where "mask3 = 0x0F"

definition mask4 :: byte where "mask4 = 0x07"

definition locb :: byte where "locb = 0x80"

definition hicb :: byte where "hicb = 0xBF"

definition xx :: byte where "xx = 0xF1"

definition as :: byte where "as = 0xF0"

definition s1 :: byte where "s1 = 0x02"

definition s2 :: byte where "s2 = 0x13"

definition s3 :: byte where "s3 = 0x03"

definition s4 :: byte where "s4 = 0x23"

definition s5 :: byte where "s5 = 0x34"

definition s6 :: byte where "s6 = 0x04"

definition s7 :: byte where "s7 = 0x44"

definition first :: "byte \<Rightarrow> byte" where
  "first b =
     (if b < 0x80 then as
      else if b < 0xC2 then xx
      else if b < 0xE0 then s1
      else if b = 0xE0 then s2
      else if b < 0xED then s3
      else if b = 0xED then s4
      else if b < 0xF0 then s3
      else if b = 0xF0 then s5
      else if b < 0xF4 then s6
      else if b = 0xF4 then s7
      else xx)"

record acceptRange =
  lo :: byte
  hi :: byte

definition acceptRanges :: "nat \<Rightarrow> acceptRange" where
  "acceptRanges i =
     (if i = 0 then \<lparr>lo = locb, hi = hicb\<rparr>
      else if i = 1 then \<lparr>lo = 0xA0, hi = hicb\<rparr>
      else if i = 2 then \<lparr>lo = locb, hi = 0x9F\<rparr>
      else if i = 3 then \<lparr>lo = 0x90, hi = hicb\<rparr>
      else if i = 4 then \<lparr>lo = locb, hi = 0x8F\<rparr>
      else \<lparr>lo = 0, hi = 0\<rparr>)"

text \<open>
  \<^verbatim>\<open>func RuneStart(b byte) bool { return b&0xC0 != 0x80 }\<close>
\<close>

definition RuneStart :: "byte \<Rightarrow> bool" where
  "RuneStart b = (b AND 0xC0 \<noteq> 0x80)"

text \<open>
  \<^verbatim>\<open>func DecodeRune(p []byte) (r rune, size int)\<close> decodes the first UTF-8 sequence of \<open>p\<close>.
  It returns \<open>(RuneError, 0)\<close> for the empty slice and \<open>(RuneError, 1)\<close> for a sequence that
  is not valid. For a leading byte with \<open>x \<ge> as\<close>, that is \<open>x = as\<close> (ASCII) or \<open>x = xx\<close>
  (invalid), the library selects between \<^verbatim>\<open>rune(p[0])\<close> and \<^verbatim>\<open>RuneError\<close> with a mask
  computed from the lowest bit of \<open>x\<close>, which its comment describes as the check for
  \<^verbatim>\<open>x == xx\<close> without a branch; the model writes the check.
\<close>

definition DecodeRune :: "string \<Rightarrow> rune \<times> nat" where
  "DecodeRune p =
     (let n = length p in
      if n < 1 then (RuneError, 0)
      else
        let p0 = byte_of (p ! 0); x = first p0 in
        if x \<ge> as then ((if x = as then ucast p0 else RuneError), 1)
        else
          let sz = unat (x AND 7); accept = acceptRanges (unat (drop_bit 4 x)) in
          if n < sz then (RuneError, 1)
          else
            let b1 = byte_of (p ! 1) in
            if b1 < lo accept \<or> hi accept < b1 then (RuneError, 1)
            else if sz \<le> 2 then
              (push_bit 6 (ucast (p0 AND mask2)) OR ucast (b1 AND maskx), 2)
            else
              let b2 = byte_of (p ! 2) in
              if b2 < locb \<or> hicb < b2 then (RuneError, 1)
              else if sz \<le> 3 then
                (push_bit 12 (ucast (p0 AND mask3)) OR push_bit 6 (ucast (b1 AND maskx))
                   OR ucast (b2 AND maskx), 3)
              else
                let b3 = byte_of (p ! 3) in
                if b3 < locb \<or> hicb < b3 then (RuneError, 1)
                else
                  (push_bit 18 (ucast (p0 AND mask4)) OR push_bit 12 (ucast (b1 AND maskx))
                     OR push_bit 6 (ucast (b2 AND maskx)) OR ucast (b3 AND maskx), 4))"

text \<open>
  \<^verbatim>\<open>func DecodeLastRune(p []byte) (r rune, size int)\<close> decodes the last UTF-8 sequence of
  \<open>p\<close>. Its loop \<^verbatim>\<open>for start--; start >= lim; start-- { if RuneStart(p[start]) { break } }\<close>
  is the function \<open>DecodeLastRune_start\<close>, which returns the value of \<open>start\<close> after the loop.
\<close>

function DecodeLastRune_start :: "string \<Rightarrow> int \<Rightarrow> int \<Rightarrow> int" where
  "DecodeLastRune_start p start lim =
     (if start \<ge> lim then
        (if RuneStart (byte_of (p ! nat start)) then start
         else DecodeLastRune_start p (start - 1) lim)
      else start)"
  by pat_completeness auto
termination
  by (relation "measure (\<lambda>(p, start, lim). nat (start + 1 - lim))") auto

declare DecodeLastRune_start.simps [simp del]

definition DecodeLastRune :: "string \<Rightarrow> rune \<times> nat" where
  "DecodeLastRune p =
     (let end = int (length p) in
      if end = 0 then (RuneError, 0)
      else
        let start = end - 1; r = ucast (byte_of (p ! nat start)) in
        if r < RuneSelf then (r, 1)
        else
          let lim = max (end - int UTFMax) 0;
              start = DecodeLastRune_start p (start - 1) lim;
              start = (if start < 0 then 0 else start);
              rs = DecodeRune (drop (nat start) (take (nat end) p)) in
          if start + int (snd rs) \<noteq> end then (RuneError, 1) else rs)"

text \<open>
  \<^verbatim>\<open>func RuneCountInString(s string) (n int)\<close> counts the runes of \<open>s\<close>; a byte that starts
  no valid sequence counts as one rune. The function \<^verbatim>\<open>fmt.Printf\<close> pads by this count.
\<close>

lemma first_multi_size:
  assumes "first c \<noteq> xx" and "\<not> c < 0x80"
  shows "0 < unat (first c AND 7)"
  using assms
  by (auto simp: first_def as_def xx_def s1_def s2_def s3_def s4_def s5_def s6_def s7_def
        split: if_splits)

function RuneCountInString_loop :: "string \<Rightarrow> nat \<Rightarrow> nat \<Rightarrow> nat" where
  "RuneCountInString_loop s i n =
     (let ns = length s in
      if i < ns then
        (let c = byte_of (s ! i) in
         if c < 0x80 then RuneCountInString_loop s (i + 1) (n + 1)
         else
           let x = first c in
           if x = xx then RuneCountInString_loop s (i + 1) (n + 1)
           else
             let size = unat (x AND 7) in
             if i + size > ns then RuneCountInString_loop s (i + 1) (n + 1)
             else
               let accept = acceptRanges (unat (drop_bit 4 x));
                   c1 = byte_of (s ! (i + 1));
                   size =
                     (if c1 < lo accept \<or> hi accept < c1 then 1
                      else if size = 2 then size
                      else
                        let c2 = byte_of (s ! (i + 2)) in
                        if c2 < locb \<or> hicb < c2 then 1
                        else if size = 3 then size
                        else
                          let c3 = byte_of (s ! (i + 3)) in
                          if c3 < locb \<or> hicb < c3 then 1 else size)
               in RuneCountInString_loop s (i + size) (n + 1))
      else n)"
  by pat_completeness auto
termination
proof (relation "measure (\<lambda>(s, i, n). length s - i)", goal_cases)
  case (5 s i n ns c x size accept c1 size')
  then have "0 < size" using first_multi_size [of c] by simp
  with 5 have "0 < size'" by (auto simp: Let_def)
  with 5 show ?case by simp
qed auto

declare RuneCountInString_loop.simps [simp del]

definition RuneCountInString :: "string \<Rightarrow> nat" where
  "RuneCountInString s = RuneCountInString_loop s 0 0"

subsection \<open>Package unicode\<close>

text \<open>
  \<^verbatim>\<open>func IsSpace(r rune) bool\<close>: for a rune up to \<^verbatim>\<open>MaxLatin1\<close> a switch over eight code
  points, otherwise a search in the 16-bit ranges of the table \<^verbatim>\<open>White_Space\<close> behind its
  Latin-1 entries. A range with the stride \<open>k\<close> holds every \<open>k\<close>-th code point from \<open>Lo\<close> to
  \<open>Hi\<close>. The library searches the ranges linearly when there are at most 18 of them, which is
  the case here, and the table has no 32-bit ranges.
\<close>

record Range16 =
  Lo :: "16 word"
  Hi :: "16 word"
  Stride :: "16 word"

record RangeTable =
  R16 :: "Range16 list"
  LatinOffset :: nat

definition White_Space :: RangeTable where
  "White_Space =
     \<lparr>R16 =
        [\<lparr>Lo = 0x0009, Hi = 0x000d, Stride = 1\<rparr>,
         \<lparr>Lo = 0x0020, Hi = 0x0085, Stride = 101\<rparr>,
         \<lparr>Lo = 0x00a0, Hi = 0x1680, Stride = 5600\<rparr>,
         \<lparr>Lo = 0x2000, Hi = 0x200a, Stride = 1\<rparr>,
         \<lparr>Lo = 0x2028, Hi = 0x2029, Stride = 1\<rparr>,
         \<lparr>Lo = 0x202f, Hi = 0x205f, Stride = 48\<rparr>,
         \<lparr>Lo = 0x3000, Hi = 0x3000, Stride = 1\<rparr>],
      LatinOffset = 2\<rparr>"

fun is16 :: "Range16 list \<Rightarrow> 16 word \<Rightarrow> bool" where
  "is16 [] r = False"
| "is16 (rng # ranges) r =
     (if r < Lo rng then False
      else if r \<le> Hi rng then Stride rng = 1 \<or> (r - Lo rng) mod Stride rng = 0
      else is16 ranges r)"

definition MaxLatin1 :: rune where "MaxLatin1 = 0xFF"

definition isExcludingLatin :: "RangeTable \<Rightarrow> rune \<Rightarrow> bool" where
  "isExcludingLatin rangeTab r =
     (let r16 = R16 rangeTab; off = LatinOffset rangeTab in
      if length r16 > off \<and> r \<le> ucast (Hi (r16 ! (length r16 - 1)))
      then is16 (drop off r16) (ucast r)
      else False)"

definition IsSpace :: "rune \<Rightarrow> bool" where
  "IsSpace r =
     (if r \<le> MaxLatin1 then
        r = 0x09 \<or> r = 0x0A \<or> r = 0x0B \<or> r = 0x0C \<or> r = 0x0D \<or> r = 0x20
          \<or> r = 0x85 \<or> r = 0xA0
      else isExcludingLatin White_Space r)"

subsection \<open>Package bytes\<close>

text \<open>Each decoder consumes at least one byte of a slice that is not empty, so the scans end.\<close>

lemma DecodeRune_size_pos: "p \<noteq> [] \<Longrightarrow> 0 < snd (DecodeRune p)"
  by (cases p) (simp_all add: DecodeRune_def Let_def)

lemma DecodeLastRune_start_le: "DecodeLastRune_start p start lim \<le> start"
proof (induction p start lim rule: DecodeLastRune_start.induct)
  case (1 p start lim)
  then show ?case
    by (subst DecodeLastRune_start.simps) auto
qed

lemma DecodeLastRune_size_pos: "p \<noteq> [] \<Longrightarrow> 0 < snd (DecodeLastRune p)"
proof -
  assume "p \<noteq> []"
  then have n: "0 < int (length p)" by simp
  define lim where "lim = max (int (length p) - int UTFMax) 0"
  define st where "st = DecodeLastRune_start p (int (length p) - 2) lim"
  have "lim < int (length p)" using n by (simp add: lim_def UTFMax_def)
  moreover have "st < int (length p)"
    using DecodeLastRune_start_le [of p "int (length p) - 2" lim] by (simp add: st_def)
  ultimately have "(if st < 0 then 0 else st) < int (length p)" using n by simp
  then show ?thesis
    using n by (auto simp: DecodeLastRune_def Let_def lim_def [symmetric] st_def [symmetric])
qed

text \<open>
  \<^verbatim>\<open>func indexFunc(s []byte, f func(r rune) bool, truth bool) int\<close> scans forward for the
  first rune \<open>r\<close> with \<open>f r = truth\<close> and returns its byte index, or \<open>-1\<close>.
\<close>

function indexFunc_loop :: "string \<Rightarrow> (rune \<Rightarrow> bool) \<Rightarrow> bool \<Rightarrow> nat \<Rightarrow> int" where
  "indexFunc_loop s f truth start =
     (if start < length s then
        (let r0 = ucast (byte_of (s ! start));
             rw = (if r0 \<ge> RuneSelf then DecodeRune (drop start s) else (r0, 1)) in
         if f (fst rw) = truth then int start
         else indexFunc_loop s f truth (start + snd rw))
      else - 1)"
  by pat_completeness auto
termination
proof (relation "measure (\<lambda>(s, f, truth, start). length s - start)", goal_cases)
  case 1
  show ?case by simp
next
  case (2 s f truth start r0 rw)
  then have "0 < snd rw"
    by (auto simp: DecodeRune_size_pos)
  with 2 show ?case by simp
qed

declare indexFunc_loop.simps [simp del]

definition indexFunc :: "string \<Rightarrow> (rune \<Rightarrow> bool) \<Rightarrow> bool \<Rightarrow> int" where
  "indexFunc s f truth = indexFunc_loop s f truth 0"

text \<open>
  \<^verbatim>\<open>func lastIndexFunc(s []byte, f func(r rune) bool, truth bool) int\<close> scans backward. Its
  loop only ever reads \<^verbatim>\<open>s[0:i]\<close>, so the recursion is on that prefix.
\<close>

function lastIndexFunc_loop :: "string \<Rightarrow> (rune \<Rightarrow> bool) \<Rightarrow> bool \<Rightarrow> int" where
  "lastIndexFunc_loop p f truth =
     (let i = length p in
      if i > 0 then
        (let r0 = ucast (byte_of (p ! (i - 1)));
             rs = (if r0 \<ge> RuneSelf then DecodeLastRune p else (r0, 1));
             i' = i - snd rs in
         if f (fst rs) = truth then int i'
         else lastIndexFunc_loop (take i' p) f truth)
      else - 1)"
  by pat_completeness auto
termination
proof (relation "measure (\<lambda>(p, f, truth). length p)", goal_cases)
  case 1
  show ?case by simp
next
  case (2 p f truth i r0 rs i')
  then have "p \<noteq> []" by auto
  with 2 have "0 < snd rs"
    by (auto simp: DecodeLastRune_size_pos)
  with 2 show ?case by simp
qed

declare lastIndexFunc_loop.simps [simp del]

definition lastIndexFunc :: "string \<Rightarrow> (rune \<Rightarrow> bool) \<Rightarrow> bool \<Rightarrow> int" where
  "lastIndexFunc s f truth = lastIndexFunc_loop s f truth"

text \<open>
  \<^verbatim>\<open>TrimLeftFunc\<close>, \<^verbatim>\<open>TrimRightFunc\<close> and \<^verbatim>\<open>TrimFunc\<close> slice off the runes that satisfy
  \<open>f\<close> at the two ends.
\<close>

definition TrimLeftFunc :: "string \<Rightarrow> (rune \<Rightarrow> bool) \<Rightarrow> string" where
  "TrimLeftFunc s f =
     (let i = indexFunc s f False in
      if i = - 1 then [] else drop (nat i) s)"

definition TrimRightFunc :: "string \<Rightarrow> (rune \<Rightarrow> bool) \<Rightarrow> string" where
  "TrimRightFunc s f =
     (let i = lastIndexFunc s f False;
          i = (if i \<ge> 0 \<and> ucast (byte_of (s ! nat i)) \<ge> RuneSelf
               then i + int (snd (DecodeRune (drop (nat i) s)))
               else i + 1) in
      take (nat i) s)"

definition TrimFunc :: "string \<Rightarrow> (rune \<Rightarrow> bool) \<Rightarrow> string" where
  "TrimFunc s f = TrimRightFunc (TrimLeftFunc s f) f"

text \<open>
  \<^verbatim>\<open>func TrimSpace(s []byte) []byte\<close> has a fast path for ASCII: it skips the bytes marked in
  the table \<^verbatim>\<open>asciiSpace\<close> at both ends, and as soon as it meets a byte that is not ASCII
  it hands the part not yet skipped to \<^verbatim>\<open>TrimFunc(s[start:stop], unicode.IsSpace)\<close>. The
  two loops return \<open>Inl\<close> of the final result on that early return and \<open>Inr\<close> of the index
  reached otherwise.
\<close>

definition asciiSpace :: "byte \<Rightarrow> 8 word" where
  "asciiSpace c =
     (if c = 0x09 \<or> c = 0x0A \<or> c = 0x0B \<or> c = 0x0C \<or> c = 0x0D \<or> c = 0x20 then 1 else 0)"

function TrimSpace_start :: "string \<Rightarrow> nat \<Rightarrow> string + nat" where
  "TrimSpace_start s start =
     (if start < length s then
        (let c = byte_of (s ! start) in
         if ucast c \<ge> RuneSelf then Inl (TrimFunc (drop start s) IsSpace)
         else if asciiSpace c = 0 then Inr start
         else TrimSpace_start s (start + 1))
      else Inr start)"
  by pat_completeness auto
termination
  by (relation "measure (\<lambda>(s, start). length s - start)") auto

declare TrimSpace_start.simps [simp del]

function TrimSpace_stop :: "string \<Rightarrow> nat \<Rightarrow> nat \<Rightarrow> string + nat" where
  "TrimSpace_stop s start stop =
     (if stop > start then
        (let c = byte_of (s ! (stop - 1)) in
         if ucast c \<ge> RuneSelf then Inl (TrimFunc (take (stop - start) (drop start s)) IsSpace)
         else if asciiSpace c = 0 then Inr stop
         else TrimSpace_stop s start (stop - 1))
      else Inr stop)"
  by pat_completeness auto
termination
  by (relation "measure (\<lambda>(s, start, stop). stop)") auto

declare TrimSpace_stop.simps [simp del]

definition TrimSpace :: "string \<Rightarrow> string" where
  "TrimSpace s =
     (case TrimSpace_start s 0 of
        Inl res \<Rightarrow> res
      | Inr start \<Rightarrow>
          (case TrimSpace_stop s start (length s) of
             Inl res \<Rightarrow> res
           | Inr stop \<Rightarrow>
               if start = stop then [] else take (stop - start) (drop start s)))"

text \<open>\<^verbatim>\<open>func Equal(a, b []byte) bool\<close> compares the bytes.\<close>

definition Equal :: "string \<Rightarrow> string \<Rightarrow> bool" where
  "Equal a b = (a = b)"

subsection \<open>Package strings\<close>

text \<open>
  \<^verbatim>\<open>strings.Split(s, sep)\<close> is \<^verbatim>\<open>genSplit(s, sep, 0, -1)\<close>; the program only calls it
  with the one-byte separator \<^verbatim>\<open>"\n"\<close>, so the separator is a byte here and
  \<^verbatim>\<open>strings.Index\<close> is \<^verbatim>\<open>IndexByte\<close>. The result always has at least one element.
\<close>

fun IndexByte :: "string \<Rightarrow> char \<Rightarrow> int" where
  "IndexByte [] c = - 1"
| "IndexByte (x # xs) c =
     (if x = c then 0 else (let i = IndexByte xs c in if i < 0 then - 1 else i + 1))"

definition Count :: "string \<Rightarrow> char \<Rightarrow> nat" where
  "Count s c = length (filter (\<lambda>x. x = c) s)"

fun genSplit_loop :: "string \<Rightarrow> char \<Rightarrow> nat \<Rightarrow> string list" where
  "genSplit_loop s sep 0 = [s]"
| "genSplit_loop s sep (Suc k) =
     (let m = IndexByte s sep in
      if m < 0 then [s]
      else take (nat m) s # genSplit_loop (drop (nat m + 1) s) sep k)"

definition Split :: "string \<Rightarrow> char \<Rightarrow> string list" where
  "Split s sep =
     (let n = Count s sep + 1;
          n = (if n > length s + 1 then length s + 1 else n)
      in genSplit_loop s sep (n - 1))"

text \<open>\<^verbatim>\<open>strings.Repeat\<close> and \<^verbatim>\<open>strings.Join\<close>.\<close>

definition Repeat :: "string \<Rightarrow> nat \<Rightarrow> string" where
  "Repeat s count = concat (replicate count s)"

definition Join :: "string list \<Rightarrow> string \<Rightarrow> string" where
  "Join elems sep = (case elems of [] \<Rightarrow> [] | e # es \<Rightarrow> e @ concat (map (\<lambda>x. sep @ x) es))"

subsection \<open>Package fmt\<close>

text \<open>
  The verb \<^verbatim>\<open>%-*s\<close> of \<^verbatim>\<open>Printf\<close> takes its width from an \<^verbatim>\<open>int\<close> argument
  (\<^verbatim>\<open>func (p *pp) doPrintf\<close>, the case of \<^verbatim>\<open>*\<close>). A width beyond a million either way
  is refused by \<^verbatim>\<open>tooLarge\<close>: the text \<^verbatim>\<open>%!(BADWIDTH)\<close> is written and no width is set.
  A negative width counts as its absolute value. The string argument is then written by
  \<^verbatim>\<open>func (f *fmt) padString(s string)\<close>, which, the minus flag being set, pads it on the
  right with spaces to the width, counted in runes; a string that is wider is written whole.
  \<^verbatim>\<open>Println\<close> of one string appends a newline.
\<close>

definition padString :: "bool \<Rightarrow> int \<Rightarrow> string \<Rightarrow> string" where
  "padString widPresent wid s =
     (if \<not> widPresent \<or> wid = 0 then s
      else
        let width = wid - int (RuneCountInString s) in
        s @ (if width \<le> 0 then [] else replicate (nat width) CHR '' ''))"

definition tooLarge :: "int \<Rightarrow> bool" where
  "tooLarge x = (x > 1000000 \<or> x < - 1000000)"

definition badWidthString :: string where
  "badWidthString = ''%!(BADWIDTH)''"

definition doPrintf_minus_star_s :: "int \<Rightarrow> string \<Rightarrow> string" where
  "doPrintf_minus_star_s num s =
     (if tooLarge num then badWidthString @ padString False 0 s
      else padString True (if num < 0 then - num else num) s)"

definition Println :: "string \<Rightarrow> string" where
  "Println s = s @ [CHR 0x0A]"

section \<open>The program\<close>

subsection \<open>Truncation\<close>

text \<open>
  \<^verbatim>\<open>
  func truncate(s string, max int) string {
      if len(s) > max {
          return s[:max-3] + "..."
      }
      return s
  }
  \<close>
\<close>

definition truncate :: "string \<Rightarrow> int \<Rightarrow> panic + string" where
  "truncate s maxw =
     (if int (length s) > maxw then
        (case slice_to s (maxw - 3) of
           Inl p \<Rightarrow> Inl p
         | Inr t \<Rightarrow> Inr (t @ ''...''))
      else Inr s)"

subsection \<open>The table of the newer revision\<close>

text \<open>
  The box-drawing characters of the table in UTF-8, and the escape sequences of the colours.
\<close>

definition box_h :: string where "box_h = [CHR 0xE2, CHR 0x95, CHR 0x90]"
definition box_v :: string where "box_v = [CHR 0xE2, CHR 0x95, CHR 0x91]"
definition box_tl :: string where "box_tl = [CHR 0xE2, CHR 0x95, CHR 0x94]"
definition box_tr :: string where "box_tr = [CHR 0xE2, CHR 0x95, CHR 0x97]"
definition box_bl :: string where "box_bl = [CHR 0xE2, CHR 0x95, CHR 0x9A]"
definition box_br :: string where "box_br = [CHR 0xE2, CHR 0x95, CHR 0x9D]"
definition box_l :: string where "box_l = [CHR 0xE2, CHR 0x95, CHR 0xA0]"
definition box_r :: string where "box_r = [CHR 0xE2, CHR 0x95, CHR 0xA3]"
definition box_t :: string where "box_t = [CHR 0xE2, CHR 0x95, CHR 0xA6]"
definition box_b :: string where "box_b = [CHR 0xE2, CHR 0x95, CHR 0xA9]"
definition box_x :: string where "box_x = [CHR 0xE2, CHR 0x95, CHR 0xAC]"

definition red :: string where "red = CHR 0x1B # ''[31m''"
definition green :: string where "green = CHR 0x1B # ''[32m''"
definition reset :: string where "reset = CHR 0x1B # ''[0m''"

text \<open>
  \<^verbatim>\<open>printColoredRow(expected, actual string, width int)\<close> writes one row whose two cells are
  coloured; \<open>printPlainRow\<close> is the \<^verbatim>\<open>fmt.Printf\<close> of the other branch of the loop, which
  writes the same row without colours. Both return the text written, or the panic of
  \<^verbatim>\<open>truncate\<close>.
\<close>

definition printColoredRow :: "string \<Rightarrow> string \<Rightarrow> int \<Rightarrow> panic + string" where
  "printColoredRow expected actual width =
     (case truncate expected width of
        Inl p \<Rightarrow> Inl p
      | Inr truncE \<Rightarrow>
          (case truncate actual width of
             Inl p \<Rightarrow> Inl p
           | Inr truncA \<Rightarrow>
               Inr (box_v @ '' '' @ red @ doPrintf_minus_star_s width truncE @ reset @ '' ''
                    @ box_v @ '' '' @ green @ doPrintf_minus_star_s width truncA @ reset @ '' ''
                    @ box_v @ [CHR 0x0A])))"

definition printPlainRow :: "string \<Rightarrow> string \<Rightarrow> int \<Rightarrow> panic + string" where
  "printPlainRow e a width =
     (case truncate e width of
        Inl p \<Rightarrow> Inl p
      | Inr te \<Rightarrow>
          (case truncate a width of
             Inl p \<Rightarrow> Inl p
           | Inr ta \<Rightarrow>
               Inr (box_v @ '' '' @ doPrintf_minus_star_s width te @ '' '' @ box_v @ '' ''
                    @ doPrintf_minus_star_s width ta @ '' '' @ box_v @ [CHR 0x0A])))"

text \<open>
  \<^verbatim>\<open>var e string; if i < len(expLines) { e = expLines[i] }\<close>: the line at index \<open>i\<close>, and the
  empty string beyond the end.
\<close>

definition line_at :: "string list \<Rightarrow> nat \<Rightarrow> string" where
  "line_at ls i = (if i < length ls then ls ! i else [])"

text \<open>
  \<^verbatim>\<open>func diffLines(expected, actual string)\<close> of the newer revision: three lines of header,
  one row for every index below the larger of the two line counts, one line of footer.
\<close>

function diffLines_table_loop ::
  "string list \<Rightarrow> string list \<Rightarrow> int \<Rightarrow> nat \<Rightarrow> nat \<Rightarrow> string list \<Rightarrow> panic + string list" where
  "diffLines_table_loop expLines actLines width maxi i out =
     (if i < maxi then
        (let e = line_at expLines i;
             a = line_at actLines i in
         case (if e \<noteq> a then printColoredRow e a (width - 2)
               else printPlainRow e a (width - 2)) of
           Inl p \<Rightarrow> Inl p
         | Inr row \<Rightarrow> diffLines_table_loop expLines actLines width maxi (i + 1) (out @ [row]))
      else Inr out)"
  by pat_completeness auto
termination
  by (relation "measure (\<lambda>(expLines, actLines, width, maxi, i, out). maxi - i)") auto

declare diffLines_table_loop.simps [simp del]

definition table_header :: "int \<Rightarrow> string list" where
  "table_header width =
     (let sep = Repeat box_h (nat width) in
      [box_tl @ sep @ box_t @ sep @ box_tr @ [CHR 0x0A],
       box_v @ '' '' @ doPrintf_minus_star_s (width - 2) ''Expected (-)'' @ '' '' @ box_v
         @ '' '' @ doPrintf_minus_star_s (width - 2) ''Actual (+)'' @ '' '' @ box_v
         @ [CHR 0x0A],
       box_l @ sep @ box_x @ sep @ box_r @ [CHR 0x0A]])"

definition table_footer :: "int \<Rightarrow> string" where
  "table_footer width =
     (let sep = Repeat box_h (nat width) in box_bl @ sep @ box_b @ sep @ box_br @ [CHR 0x0A])"

definition diffLines_table :: "string \<Rightarrow> string \<Rightarrow> panic + string list" where
  "diffLines_table expected actual =
     (let expLines = Split expected CHR 0x0A;
          actLines = Split actual CHR 0x0A;
          width = 40;
          out = table_header width;
          maxi = length expLines;
          maxi = (if length actLines > maxi then length actLines else maxi)
      in case diffLines_table_loop expLines actLines width maxi 0 out of
           Inl p \<Rightarrow> Inl p
         | Inr out \<Rightarrow> Inr (out @ [table_footer width]))"

subsection \<open>The unified diff of the older revision\<close>

text \<open>
  \<^verbatim>\<open>
  fmt.Println("--- expected_output")
  fmt.Println("+++ actual_output")
  for i := 0; i < len(expLines) || i < len(actLines); i++ {
      ...
      if e != a {
          fmt.Printf("- %s\n", e)
          fmt.Printf("+ %s\n", a)
      }
  }
  \<close>
\<close>

function diffLines_unified_loop ::
  "string list \<Rightarrow> string list \<Rightarrow> nat \<Rightarrow> string list \<Rightarrow> string list" where
  "diffLines_unified_loop expLines actLines i out =
     (if i < length expLines \<or> i < length actLines then
        (let e = line_at expLines i;
             a = line_at actLines i;
             out = (if e \<noteq> a then out @ [''- '' @ e @ [CHR 0x0A], ''+ '' @ a @ [CHR 0x0A]]
                    else out)
         in diffLines_unified_loop expLines actLines (i + 1) out)
      else out)"
  by pat_completeness auto
termination
  by (relation "measure (\<lambda>(expLines, actLines, i, out).
        max (length expLines) (length actLines) - i)") auto

declare diffLines_unified_loop.simps [simp del]

definition diffLines_unified :: "string \<Rightarrow> string \<Rightarrow> string list" where
  "diffLines_unified expected actual =
     (let expLines = Split expected CHR 0x0A;
          actLines = Split actual CHR 0x0A;
          out = [''--- expected_output'' @ [CHR 0x0A], ''+++ actual_output'' @ [CHR 0x0A]]
      in diffLines_unified_loop expLines actLines 0 out)"

subsection \<open>The comparison and the run function\<close>

text \<open>
  Both revisions decide with the same condition,
  \<^verbatim>\<open>if !bytes.Equal(bytes.TrimSpace(actual), bytes.TrimSpace(expected)) { ... } else { ... }\<close>.
  The function \<open>compare\<close> is that condition, with the two branches named as the verdicts
  \<open>Diff\<close> and \<open>Match\<close>.
\<close>

datatype ComparisonResult = Match | Diff

definition compare :: "string \<Rightarrow> string \<Rightarrow> ComparisonResult" where
  "compare expected actual =
     (if \<not> Equal (TrimSpace actual) (TrimSpace expected) then Diff else Match)"

text \<open>
  \<^verbatim>\<open>logVerbose\<close> prints only when the flag is set. Its callers pass \<^verbatim>\<open>%s\<close> formats, and
  the model passes the formatted message.
\<close>

definition logVerbose :: "world \<Rightarrow> string \<Rightarrow> string list" where
  "logVerbose w msg = (if verboseFlag w then [''[verbose] '' @ msg @ [CHR 0x0A]] else [])"

text \<open>
  \<^verbatim>\<open>func compileAndRun(...) error\<close> of the newer revision returns the lines printed and the
  error (\<open>None\<close> is \<^verbatim>\<open>nil\<close>), or the panic of the table.
\<close>

definition compileAndRun_table ::
  "world \<Rightarrow> string \<Rightarrow> string \<Rightarrow> string \<Rightarrow> string \<Rightarrow> string \<Rightarrow> bool \<Rightarrow>
   panic + (string list \<times> string option)" where
  "compileAndRun_table w lang sourceFile inputFile outputFile expectedOutputFile cleanup =
     (let buildDir = ''build'' in
      case mkdirAll_err w of
        Some err \<Rightarrow> Inr ([], Some (''failed to create build directory: '' @ err))
      | None \<Rightarrow>
     (let out = logVerbose w (''Created build directory: '' @ buildDir);
          build =
            (if lang = ''go'' then
               Some (joinBuild w, logVerbose w (''Compiling Go to '' @ joinBuild w),
                     [''go'', ''build'', ''-o'', joinBuild w, sourceFile])
             else if lang = ''cpp'' then
               Some (joinBuild w, logVerbose w (''Compiling C++ to '' @ joinBuild w),
                     [''g++'', ''-o'', joinBuild w, sourceFile])
             else if lang = ''rust'' then
               Some (joinBuild w, logVerbose w (''Compiling Rust to '' @ joinBuild w),
                     [''rustc'', ''-o'', joinBuild w, sourceFile])
             else if lang = ''java'' then
               Some (''java'', logVerbose w (''Compiling Java to '' @ buildDir),
                     [''javac'', ''-d'', buildDir, sourceFile])
             else if lang = ''python'' then
               Some ([], logVerbose w (''Python script: '' @ sourceFile), [])
             else None)
      in case build of
        None \<Rightarrow> Inr (out, Some (''unsupported language: '' @ lang))
      | Some (execPath, logs, args) \<Rightarrow>
     (let out = out @ logs;
          out = (if lang \<noteq> ''python''
                 then out @ logVerbose w (''Running command: '' @ Join args '' '') else out)
      in case (if lang \<noteq> ''python'' then compile_err w else None) of
        Some err \<Rightarrow> Inr (out, Some (''compilation failed: '' @ err))
      | None \<Rightarrow>
     (case open_err w of
        Some err \<Rightarrow> Inr (out, Some (''cannot open input file: '' @ err))
      | None \<Rightarrow>
     (case create_err w of
        Some err \<Rightarrow> Inr (out, Some (''cannot create output file: '' @ err))
      | None \<Rightarrow>
     (let out = out @ [Println ''Executing...''];
          args =
            (if lang = ''go'' \<or> lang = ''cpp'' \<or> lang = ''rust'' then [execPath]
             else if lang = ''java'' then [''java'', ''-cp'', buildDir, baseName w]
             else [''python3'', sourceFile]);
          out = out @ logVerbose w (''Running command: '' @ Join args '' '')
      in case execute_err w of
        Some err \<Rightarrow> Inr (out, Some (''execution failed: '' @ err))
      | None \<Rightarrow>
     (let out = out @ [Println ''Comparing outputs...''] in
      case read_actual w of
        Inl err \<Rightarrow> Inr (out, Some (''cannot read actual output file: '' @ err))
      | Inr actual \<Rightarrow>
     (case read_expected w of
        Inl err \<Rightarrow> Inr (out, Some (''cannot read expected output file: '' @ err))
      | Inr expected \<Rightarrow>
     (case (case compare expected actual of
              Diff \<Rightarrow>
                (case diffLines_table expected actual of
                   Inl p \<Rightarrow> Inl p
                 | Inr d \<Rightarrow> Inr (out @ [Println ''Output differs from expected:''] @ d))
            | Match \<Rightarrow> Inr (out @ [Println ''Output matches the expected output!''])) of
        Inl p \<Rightarrow> Inl p
      | Inr out \<Rightarrow>
          Inr ((if cleanup then
                  out @ logVerbose w (''Removing build directory: '' @ buildDir) @
                  (case removeAll_err w of
                     Some err \<Rightarrow> [''Warning: failed to remove build directory: '' @ err @ [CHR 0x0A]]
                   | None \<Rightarrow> [])
                else out),
               None))))))))))"

text \<open>\<^verbatim>\<open>func compileAndRun(...) error\<close> of the older revision.\<close>

definition compileAndRun_unified ::
  "world \<Rightarrow> string \<Rightarrow> string \<Rightarrow> string \<Rightarrow> string \<Rightarrow> string \<Rightarrow> string list \<times> string option" where
  "compileAndRun_unified w lang sourceFile inputFile outputFile expectedOutputFile =
     (let build =
            (if lang = ''go'' then Some (Println ''Compiling Go...'')
             else if lang = ''cpp'' then Some (Println ''Compiling C++...'')
             else if lang = ''rust'' then Some (Println ''Compiling Rust...'')
             else if lang = ''java'' then Some (Println ''Compiling Java...'')
             else if lang = ''python'' then
               Some (Println (''Python doesn'' @ [CHR 0xE2, CHR 0x80, CHR 0x99] @
                              ''t require compilation.''))
             else None)
      in case build of
        None \<Rightarrow> ([], Some (''unsupported language: '' @ lang))
      | Some line \<Rightarrow>
     (let out = [line] in
      case (if lang \<noteq> ''python'' then compile_err w else None) of
        Some err \<Rightarrow> (out, Some (''compilation failed: '' @ err))
      | None \<Rightarrow>
     (let out = out @ [Println ''Executing...''] in
      case open_err w of
        Some err \<Rightarrow> (out, Some (''cannot open input file: '' @ err))
      | None \<Rightarrow>
     (case create_err w of
        Some err \<Rightarrow> (out, Some (''cannot create output file: '' @ err))
      | None \<Rightarrow>
     (case execute_err w of
        Some err \<Rightarrow> (out, Some (''execution failed: '' @ err))
      | None \<Rightarrow>
     (let out = out @ [Println ''Comparing outputs...''] in
      case read_actual w of
        Inl err \<Rightarrow> (out, Some (''cannot read actual output: '' @ err))
      | Inr actual \<Rightarrow>
     (case read_expected w of
        Inl err \<Rightarrow> (out, Some (''cannot read expected output: '' @ err))
      | Inr expected \<Rightarrow>
          ((case compare expected actual of
              Diff \<Rightarrow> out @ [Println ''Output differs from expected:''] @
                        diffLines_unified expected actual
            | Match \<Rightarrow> out @ [Println ''Output matches the expected output!'']),
           None))))))))"

text \<open>The languages the \<^verbatim>\<open>switch\<close> of the run function knows.\<close>

definition supported :: "string \<Rightarrow> bool" where
  "supported lang = (lang \<in> {''go'', ''cpp'', ''rust'', ''java'', ''python''})"

section \<open>White space, as the specification words it\<close>

text \<open>
  The specification says that the comparison trims leading and trailing white space from each
  whole text. Stated without the decoder: the white space characters are the 25 code points
  with the Unicode property White_Space, each in its UTF-8 encoding; trimming removes
  encodings of white space from the front while there is one, and then from the back. A text
  is white space if it consists of such encodings only, and it is solid if it neither starts
  nor ends with one.
\<close>

definition space_encodings :: "string list" where
  "space_encodings =
     [ [CHR 0x09], [CHR 0x0A], [CHR 0x0B], [CHR 0x0C], [CHR 0x0D], [CHR 0x20],
      [CHR 0xC2, CHR 0x85], [CHR 0xC2, CHR 0xA0],
      [CHR 0xE1, CHR 0x9A, CHR 0x80],
      [CHR 0xE2, CHR 0x80, CHR 0x80], [CHR 0xE2, CHR 0x80, CHR 0x81],
      [CHR 0xE2, CHR 0x80, CHR 0x82], [CHR 0xE2, CHR 0x80, CHR 0x83],
      [CHR 0xE2, CHR 0x80, CHR 0x84], [CHR 0xE2, CHR 0x80, CHR 0x85],
      [CHR 0xE2, CHR 0x80, CHR 0x86], [CHR 0xE2, CHR 0x80, CHR 0x87],
      [CHR 0xE2, CHR 0x80, CHR 0x88], [CHR 0xE2, CHR 0x80, CHR 0x89],
      [CHR 0xE2, CHR 0x80, CHR 0x8A],
      [CHR 0xE2, CHR 0x80, CHR 0xA8], [CHR 0xE2, CHR 0x80, CHR 0xA9],
      [CHR 0xE2, CHR 0x80, CHR 0xAF],
      [CHR 0xE2, CHR 0x81, CHR 0x9F],
      [CHR 0xE3, CHR 0x80, CHR 0x80]]"

lemma space_encodings_nonempty: "e \<in> set space_encodings \<Longrightarrow> e \<noteq> []"
  by (auto simp: space_encodings_def)

function trim_leading :: "string \<Rightarrow> string" where
  "trim_leading s =
     (case find (\<lambda>e. prefix e s) space_encodings of
        None \<Rightarrow> s
      | Some e \<Rightarrow> trim_leading (drop (length e) s))"
  by pat_completeness auto
termination
proof (relation "measure length", goal_cases)
  case 1
  show ?case by simp
next
  case (2 s e)
  then have "e \<in> set space_encodings" "prefix e s"
    by (auto simp: find_Some_iff)
  then have "e \<noteq> []" "length e \<le> length s"
    by (auto simp: space_encodings_nonempty prefix_length_le)
  then show ?case by (cases s) auto
qed

declare trim_leading.simps [simp del]

function trim_trailing :: "string \<Rightarrow> string" where
  "trim_trailing s =
     (case find (\<lambda>e. suffix e s) space_encodings of
        None \<Rightarrow> s
      | Some e \<Rightarrow> trim_trailing (take (length s - length e) s))"
  by pat_completeness auto
termination
proof (relation "measure length", goal_cases)
  case 1
  show ?case by simp
next
  case (2 s e)
  then have "e \<in> set space_encodings" "suffix e s"
    by (auto simp: find_Some_iff)
  then have "e \<noteq> []" "length e \<le> length s"
    by (auto simp: space_encodings_nonempty suffix_length_le)
  then show ?case by (cases s) auto
qed

declare trim_trailing.simps [simp del]

definition trim_spec :: "string \<Rightarrow> string" where
  "trim_spec s = trim_trailing (trim_leading s)"

definition whitespace :: "string \<Rightarrow> bool" where
  "whitespace t = (trim_leading t = [])"

definition solid :: "string \<Rightarrow> bool" where
  "solid c = (\<forall>e\<in>set space_encodings. \<not> prefix e c \<and> \<not> suffix e c)"

section \<open>Notions used in the proofs\<close>

text \<open>
  A continuation byte; the rune that two, three and four bytes encode; the second byte the
  table accepts after a leading byte, and the length the leading byte announces.
\<close>

definition cont :: "byte \<Rightarrow> bool" where
  "cont b = (0x80 \<le> b \<and> b \<le> 0xBF)"

definition rune2 :: "byte \<Rightarrow> byte \<Rightarrow> rune" where
  "rune2 p0 b1 = push_bit 6 (ucast (p0 AND mask2)) OR ucast (b1 AND maskx)"

definition rune3 :: "byte \<Rightarrow> byte \<Rightarrow> byte \<Rightarrow> rune" where
  "rune3 p0 b1 b2 =
     push_bit 12 (ucast (p0 AND mask3)) OR push_bit 6 (ucast (b1 AND maskx)) OR ucast (b2 AND maskx)"

definition rune4 :: "byte \<Rightarrow> byte \<Rightarrow> byte \<Rightarrow> byte \<Rightarrow> rune" where
  "rune4 p0 b1 b2 b3 =
     push_bit 18 (ucast (p0 AND mask4)) OR push_bit 12 (ucast (b1 AND maskx))
       OR push_bit 6 (ucast (b2 AND maskx)) OR ucast (b3 AND maskx)"

definition accepts :: "byte \<Rightarrow> byte \<Rightarrow> bool" where
  "accepts p0 b1 =
     (lo (acceptRanges (unat (drop_bit 4 (first p0)))) \<le> b1 \<and>
      b1 \<le> hi (acceptRanges (unat (drop_bit 4 (first p0)))))"

definition seq_size :: "byte \<Rightarrow> nat" where
  "seq_size p0 = unat (first p0 AND 7)"

text \<open>The code points with the property White_Space.\<close>

definition space_codes :: "nat set" where
  "space_codes = {9, 10, 11, 12, 13, 32, 133, 160, 5760} \<union> {8192..8202}
     \<union> {8232, 8233, 8239, 8287, 12288}"

text \<open>A byte at which the fast path of \<^verbatim>\<open>TrimSpace\<close> stops.\<close>

definition solid_byte :: "char \<Rightarrow> bool" where
  "solid_byte c = (byte_of c < 0x80 \<and> asciiSpace (byte_of c) = 0)"

text \<open>The row of the table, and the lines of the unified diff, for the index \<open>i\<close>.\<close>

definition table_row :: "string list \<Rightarrow> string list \<Rightarrow> int \<Rightarrow> nat \<Rightarrow> panic + string" where
  "table_row expLines actLines w i =
     (if line_at expLines i \<noteq> line_at actLines i
      then printColoredRow (line_at expLines i) (line_at actLines i) w
      else printPlainRow (line_at expLines i) (line_at actLines i) w)"

definition unified_row :: "string list \<Rightarrow> string list \<Rightarrow> nat \<Rightarrow> string list" where
  "unified_row E A i =
     (if line_at E i \<noteq> line_at A i
      then [''- '' @ line_at E i @ [CHR 0x0A], ''+ '' @ line_at A i @ [CHR 0x0A]]
      else [])"

section \<open>The decoder\<close>

text \<open>
  The decoder in the form the proofs use: what it returns for a sequence given byte by byte.
\<close>

lemma RuneStart_iff: "RuneStart (byte_of c) = (\<not> cont (byte_of c))"
proof (cases c)
  case (Char x1 x2 x3 x4 x5 x6 x7 x8)
  show ?thesis unfolding Char cont_def
    by (cases x1; cases x2; cases x3; cases x4; cases x5; cases x6; cases x7; cases x8)
       (simp_all add: byte_of_def RuneStart_def word_le_nat_alt)
qed

text \<open>What the table \<open>first\<close> says about a byte that starts a multi-byte sequence.\<close>

lemma first_lead:
  assumes "\<not> first b \<ge> as"
  shows "unat (first b AND 7) \<in> {2, 3, 4}"
    and "0x80 \<le> lo (acceptRanges (unat (drop_bit 4 (first b))))"
    and "hi (acceptRanges (unat (drop_bit 4 (first b)))) \<le> 0xBF"
    and "0xC2 \<le> b"
  using assms
  by (auto simp: first_def as_def xx_def s1_def s2_def s3_def s4_def s5_def s6_def s7_def
        acceptRanges_def locb_def hicb_def split: if_splits)

lemma first_single:
  "first b \<ge> as \<Longrightarrow> first b = as \<and> b < 0x80 \<or> first b = xx \<and> 0x80 \<le> b"
  by (auto simp: first_def as_def xx_def s1_def s2_def s3_def s4_def s5_def s6_def s7_def
        split: if_splits)

lemma first_ascii: "b < 0x80 \<Longrightarrow> first b = as"
  by (simp add: first_def)

lemma DecodeRune_Nil: "DecodeRune [] = (RuneError, 0)"
  by (simp add: DecodeRune_def)

lemma DecodeRune_single:
  "first (byte_of c0) \<ge> as \<Longrightarrow>
   DecodeRune (c0 # q) = ((if first (byte_of c0) = as then ucast (byte_of c0) else RuneError), 1)"
  by (simp add: DecodeRune_def Let_def)

lemma DecodeRune_lead:
  assumes "\<not> first (byte_of c0) \<ge> as"
  shows "DecodeRune (c0 # q) =
     (case q of
        [] \<Rightarrow> (RuneError, 1)
      | c1 # q1 \<Rightarrow>
          if \<not> accepts (byte_of c0) (byte_of c1) then (RuneError, 1)
          else if seq_size (byte_of c0) = 2 then (rune2 (byte_of c0) (byte_of c1), 2)
          else
            (case q1 of
               [] \<Rightarrow> (RuneError, 1)
             | c2 # q2 \<Rightarrow>
                 if \<not> cont (byte_of c2) then (RuneError, 1)
                 else if seq_size (byte_of c0) = 3 then
                   (rune3 (byte_of c0) (byte_of c1) (byte_of c2), 3)
                 else
                   (case q2 of
                      [] \<Rightarrow> (RuneError, 1)
                    | c3 # q3 \<Rightarrow>
                        if \<not> cont (byte_of c3) then (RuneError, 1)
                        else (rune4 (byte_of c0) (byte_of c1) (byte_of c2) (byte_of c3), 4))))"
proof -
  from first_lead(1) [OF assms]
  consider "seq_size (byte_of c0) = 2" | "seq_size (byte_of c0) = 3" | "seq_size (byte_of c0) = 4"
    by (auto simp: seq_size_def)
  then show ?thesis
  proof cases
    case 1
    with assms show ?thesis
      by (auto simp: DecodeRune_def Let_def seq_size_def accepts_def rune2_def not_le not_less
            split: list.splits)
  next
    case 2
    with assms show ?thesis
      by (auto simp: DecodeRune_def Let_def seq_size_def accepts_def rune3_def cont_def locb_def
            hicb_def not_le not_less split: list.splits)
  next
    case 3
    with assms show ?thesis
      by (auto simp: DecodeRune_def Let_def seq_size_def accepts_def rune4_def cont_def locb_def
            hicb_def not_le not_less split: list.splits)
  qed
qed

lemma accepts_cont:
  "\<not> first p0 \<ge> as \<Longrightarrow> accepts p0 b1 \<Longrightarrow> cont b1"
  using first_lead(2,3) [of p0] by (auto simp: accepts_def cont_def)

lemma seq_size_cases:
  "\<not> first p0 \<ge> as \<Longrightarrow> seq_size p0 = 2 \<or> seq_size p0 = 3 \<or> seq_size p0 = 4"
  using first_lead(1) [of p0] by (auto simp: seq_size_def)

lemma DecodeRune_ascii:
  "byte_of c < 0x80 \<Longrightarrow> DecodeRune (c # q) = (ucast (byte_of c), 1)"
  by (simp add: DecodeRune_single first_ascii)

text \<open>
  A sequence the decoder accepts has a leading byte followed by continuation bytes only,
  and the decoder looks at no byte behind the sequence.
\<close>

lemma DecodeRune_size_bounds:
  assumes "p \<noteq> []"
  shows "1 \<le> snd (DecodeRune p)" and "snd (DecodeRune p) \<le> length p"
proof -
  obtain c0 q where p: "p = c0 # q" using assms by (cases p) auto
  show "1 \<le> snd (DecodeRune p)" "snd (DecodeRune p) \<le> length p"
    unfolding p
    by (cases "first (byte_of c0) \<ge> as";
        simp add: DecodeRune_single DecodeRune_lead split: list.splits)+
qed

lemma DecodeRune_append:
  assumes "2 \<le> snd (DecodeRune p)"
  shows "DecodeRune (p @ q) = DecodeRune p"
proof -
  obtain c0 p' where p: "p = c0 # p'" using assms by (cases p) (auto simp: DecodeRune_Nil)
  have l: "\<not> first (byte_of c0) \<ge> as"
    using assms unfolding p by (auto simp: DecodeRune_single)
  show ?thesis
    using assms unfolding p
    by (auto simp: DecodeRune_lead [OF l] split: list.splits if_splits)
qed

lemma DecodeRune_append_start:
  assumes "p \<noteq> []" and "\<not> cont (byte_of a)"
  shows "DecodeRune (p @ a # q) = DecodeRune p"
proof -
  obtain c0 p' where p: "p = c0 # p'" using assms by (cases p) auto
  show ?thesis
  proof (cases "first (byte_of c0) \<ge> as")
    case True
    then show ?thesis by (simp add: p DecodeRune_single)
  next
    case False
    note ac = accepts_cont [OF False]
    show ?thesis
      using assms(2) ac unfolding p
      by (auto simp: DecodeRune_lead [OF False] split: list.splits if_splits)
  qed
qed

lemma DecodeRune_multi_bytes:
  assumes "2 \<le> snd (DecodeRune p)"
  shows "\<not> cont (byte_of (p ! 0))"
    and "\<And>k. 1 \<le> k \<Longrightarrow> k < snd (DecodeRune p) \<Longrightarrow> cont (byte_of (p ! k))"
proof -
  obtain c0 p' where p: "p = c0 # p'" using assms by (cases p) (auto simp: DecodeRune_Nil)
  have l: "\<not> first (byte_of c0) \<ge> as"
    using assms unfolding p by (auto simp: DecodeRune_single)
  show "\<not> cont (byte_of (p ! 0))"
    using first_lead(4) [OF l] by (auto simp: p cont_def word_le_nat_alt)
  fix k :: nat
  assume k: "1 \<le> k" "k < snd (DecodeRune p)"
  note ac = accepts_cont [OF l]
  have "k = 1 \<or> k = 2 \<or> k = 3" 
    using k DecodeRune_size_bounds(2) [of p] assms
    unfolding p by (auto simp: DecodeRune_lead [OF l] split: list.splits if_splits)
  then show "cont (byte_of (p ! k))"
    using k ac unfolding p
    by (auto simp: DecodeRune_lead [OF l] split: list.splits if_splits)
qed

text \<open>
  Decoding backwards finds a sequence of at least two bytes at the end of the text, and what
  it finds there is what decoding forwards from the start of the sequence gives.
\<close>

lemma unat_ucast_byte: "unat (ucast (w::byte) :: rune) = unat w"
proof -
  have "unat w < 2 ^ 8" using unsigned_less [of w] by simp
  then have "unat w < 2 ^ 32" by simp
  then show ?thesis by (simp add: unsigned_ucast_eq take_bit_nat_eq_self)
qed

lemma ucast_RuneSelf: "((ucast (b::byte) :: rune) \<ge> RuneSelf) = (0x80 \<le> b)"
  by (simp add: RuneSelf_def word_le_nat_alt unat_ucast_byte)

lemma cont_not_ascii: "cont b \<Longrightarrow> 0x80 \<le> b"
  by (simp add: cont_def)

lemma ascii_not_cont: "b < 0x80 \<Longrightarrow> \<not> cont b"
  by (auto simp: cont_def word_le_nat_alt word_less_nat_alt)

lemma DecodeLastRune_Nil: "DecodeLastRune [] = (RuneError, 0)"
  by (simp add: DecodeLastRune_def)

lemma DecodeLastRune_ascii:
  assumes "p \<noteq> []" and "byte_of (last p) < 0x80"
  shows "DecodeLastRune p = (ucast (byte_of (last p)), 1)"
proof -
  have "nat (int (length p) - 1) = length p - 1" by arith
  then have "p ! nat (int (length p) - 1) = last p"
    using assms(1) by (simp add: last_conv_nth)
  moreover have "\<not> (ucast (byte_of (last p)) :: rune) \<ge> RuneSelf"
    using assms(2) by (simp add: ucast_RuneSelf)
  ultimately show ?thesis
    using assms(1) by (simp add: DecodeLastRune_def Let_def not_le)
qed

lemma DecodeLastRune_start_found:
  assumes "lim \<le> j" and "j \<le> start"
    and "RuneStart (byte_of (p ! nat j))"
    and "\<And>k. j < k \<Longrightarrow> k \<le> start \<Longrightarrow> \<not> RuneStart (byte_of (p ! nat k))"
  shows "DecodeLastRune_start p start lim = j"
  using assms
proof (induction p start lim rule: DecodeLastRune_start.induct)
  case (1 p start lim)
  show ?case
  proof (cases "start = j")
    case True
    with 1 show ?thesis by (subst DecodeLastRune_start.simps) simp
  next
    case False
    with 1 have lt: "j < start" by simp
    then have ns: "\<not> RuneStart (byte_of (p ! nat start))" using "1.prems"(4) [of start] by simp
    have "DecodeLastRune_start p (start - 1) lim = j"
      using 1 lt ns by (intro "1.IH") auto
    with 1 lt ns show ?thesis by (subst DecodeLastRune_start.simps) simp
  qed
qed

lemma DecodeLastRune_multi:
  assumes e: "DecodeRune e = (rr, length e)" and len: "2 \<le> length e"
  shows "DecodeLastRune (x @ e) = (rr, length e)"
proof -
  define p where "p = x @ e"
  define lim where "lim = max (int (length p) - int UTFMax) 0"
  have lp: "length p = length x + length e" by (simp add: p_def)
  have sz: "2 \<le> snd (DecodeRune e)" using e len by simp
  have le4: "length e \<le> 4"
  proof -
    obtain c0 q where "e = c0 # q" using len by (cases e) auto
    then show ?thesis using e
      by (cases "first (byte_of c0) \<ge> as")
         (auto simp: DecodeRune_single DecodeRune_lead split: list.splits if_splits)
  qed
  have start: "\<not> cont (byte_of (e ! 0))"
    and conts: "\<And>k. 1 \<le> k \<Longrightarrow> k < length e \<Longrightarrow> cont (byte_of (e ! k))"
    using DecodeRune_multi_bytes [OF sz] e by auto
  have nth: "\<And>k. p ! (length x + k) = e ! k"
    by (simp add: p_def)
  have "nat (int (length p) - 1) = length x + (length e - 1)" using len lp by simp
  then have lastb: "p ! nat (int (length p) - 1) = e ! (length e - 1)"
    by (simp only: nth)
  have "cont (byte_of (e ! (length e - 1)))" using conts [of "length e - 1"] len by simp
  then have "(ucast (byte_of (p ! nat (int (length p) - 1))) :: rune) \<ge> RuneSelf"
    by (simp only: lastb ucast_RuneSelf cont_not_ascii)
  then have big: "\<not> (ucast (byte_of (p ! nat (int (length p) - 1))) :: rune) < RuneSelf"
    by (simp add: not_less)
  have st: "DecodeLastRune_start p (int (length p) - 2) lim = int (length x)"
  proof (rule DecodeLastRune_start_found)
    show "lim \<le> int (length x)" using le4 lp by (simp add: lim_def UTFMax_def)
    show "int (length x) \<le> int (length p) - 2" using len lp by simp
    show "RuneStart (byte_of (p ! nat (int (length x))))"
      using start nth [of 0] by (simp add: RuneStart_iff)
  next
    fix k :: int
    assume k: "int (length x) < k" "k \<le> int (length p) - 2"
    then have a: "nat k - length x < length e" "1 \<le> nat k - length x" using lp by auto
    have "nat k = length x + (nat k - length x)" using k by simp
    then have "p ! nat k = e ! (nat k - length x)" using nth by metis
    with conts [OF a(2) a(1)]
    show "\<not> RuneStart (byte_of (p ! nat k))"
      by (simp add: RuneStart_iff)
  qed
  have nlt: "\<not> int (length x) < lim" using le4 lp by (simp add: lim_def UTFMax_def)
  have dr: "drop (nat (int (length x))) (take (nat (int (length p))) p) = e"
    by (simp add: p_def)
  have fin: "int (length x) + int (length e) = int (length p)" using lp by simp
  have "p \<noteq> []" using len lp by auto
  then have "DecodeLastRune p = (rr, length e)"
    using big st nlt e dr fin
    by (simp add: DecodeLastRune_def Let_def lim_def [symmetric])
  then show ?thesis by (simp add: p_def)
qed

lemma DecodeLastRune_multi_inv:
  assumes "p \<noteq> []" and "0x80 \<le> byte_of (last p)" and "DecodeLastRune p = (rr, sz)"
  shows "(rr = RuneError \<and> sz = 1) \<or>
         (sz \<le> length p \<and> DecodeRune (drop (length p - sz) p) = (rr, sz))"
proof -
  define lim where "lim = max (int (length p) - int UTFMax) 0"
  define st where "st = DecodeLastRune_start p (int (length p) - 2) lim"
  define st' where "st' = (if st < 0 then 0 else st)"
  have st0: "0 \<le> st'" by (simp add: st'_def)
  have "nat (int (length p) - 1) = length p - 1" by arith
  then have "p ! nat (int (length p) - 1) = last p"
    using assms(1) by (simp add: last_conv_nth)
  then have big: "\<not> (ucast (byte_of (p ! nat (int (length p) - 1))) :: rune) < RuneSelf"
    using assms(2) by (simp add: not_less ucast_RuneSelf)
  have eq: "DecodeLastRune p =
      (if st' + int (snd (DecodeRune (drop (nat st') p))) \<noteq> int (length p) then (RuneError, 1)
       else DecodeRune (drop (nat st') p))"
    using assms(1) big
    by (simp add: DecodeLastRune_def Let_def lim_def [symmetric] st_def [symmetric] st'_def)
  show ?thesis
  proof (cases "st' + int (snd (DecodeRune (drop (nat st') p))) = int (length p)")
    case False
    with eq assms(3) show ?thesis by simp
  next
    case True
    with eq assms(3) have d: "DecodeRune (drop (nat st') p) = (rr, sz)" by simp
    with True have "st' + int sz = int (length p)" by simp
    with st0 have "sz \<le> length p" "nat st' = length p - sz" by auto
    with d show ?thesis by simp
  qed
qed

section \<open>The runes that are white space\<close>

lemmas decode_consts =
  DecodeRune_def byte_of_def first_def as_def xx_def s1_def s2_def s3_def s4_def s5_def s6_def
  s7_def acceptRanges_def locb_def hicb_def mask2_def mask3_def mask4_def maskx_def

lemmas space_consts =
  IsSpace_def MaxLatin1_def isExcludingLatin_def White_Space_def

text \<open>
  Each of the 25 encodings decodes to a rune that is white space. The converse takes the
  rest of this section: a decoded rune that is white space comes from one of the encodings.
  The runes are computed as natural numbers, and the white space code points are looked up in
  the ranges of two, three and four bytes.
\<close>

lemma DecodeRune_space_encoding:
  assumes "e \<in> set space_encodings"
  shows "IsSpace (fst (DecodeRune (e @ q))) \<and> snd (DecodeRune (e @ q)) = length e"
  using assms unfolding space_encodings_def list.set insert_iff empty_iff
  by (elim disjE FalseE; simp add: decode_consts space_consts)

lemma unat_and_mask_byte:
  "unat ((p::byte) AND mask n) = unat p mod 2 ^ n"
proof -
  have "unat (p AND mask n) = unat (take_bit n p)" by (simp only: take_bit_eq_mask)
  also have "\<dots> = take_bit n (unat p)" by (rule unsigned_take_bit_eq)
  finally show ?thesis by (simp add: take_bit_eq_mod)
qed

lemma unat_low_bits:
  "unat (ucast ((b::byte) AND mask n) :: rune) = unat b mod 2 ^ n"
  by (simp add: unat_ucast_byte unat_and_mask_byte)

lemma mask_numerals:
  "(0x3F :: byte) = mask 6" "(0x1F :: byte) = mask 5" "(0x0F :: byte) = mask 4"
  "(0x07 :: byte) = mask 3"
  by (simp_all add: mask_eq_exp_minus_1)

lemma push_or_take_nat:
  "push_bit n (x::nat) OR take_bit n y = x * 2 ^ n + y mod 2 ^ n"
proof -
  have "push_bit n x AND take_bit n y = 0"
    by (simp add: bit_eq_iff bit_simps)
  then have "push_bit n x OR take_bit n y = push_bit n x + take_bit n y"
    by (simp add: disjunctive_add_eq_or)
  then show ?thesis by (simp add: push_bit_eq_mult take_bit_eq_mod)
qed

lemma push_or_small:
  "(t::nat) < 2 ^ n \<Longrightarrow> push_bit n x OR t = x * 2 ^ n + t"
  using push_or_take_nat [of n x t] by (simp add: take_bit_nat_eq_self)

lemma push_bit_small:
  "(x::nat) < 2 ^ k \<Longrightarrow> n + k \<le> 32 \<Longrightarrow> take_bit 32 (push_bit n x) = push_bit n x"
proof (rule take_bit_nat_eq_self)
  assume a: "x < 2 ^ k" "n + k \<le> 32"
  have "push_bit n x = x * 2 ^ n" by (simp add: push_bit_eq_mult)
  also have "\<dots> < 2 ^ k * 2 ^ n" using a by simp
  also have "\<dots> = 2 ^ (n + k)" by (simp add: power_add)
  also have "\<dots> \<le> (2::nat) ^ 32" using a by (intro power_increasing) simp_all
  finally show "push_bit n x < 2 ^ 32" .
qed

lemma unat_push_low:
  "k \<le> 8 \<Longrightarrow> n + k \<le> 32 \<Longrightarrow>
   unat (push_bit n (ucast ((b::byte) AND mask k) :: rune)) = (unat b mod 2 ^ k) * 2 ^ n"
proof -
  assume a: "k \<le> 8" "n + k \<le> 32"
  have "unat (push_bit n (ucast (b AND mask k) :: rune))
      = take_bit 32 (push_bit n (unat b mod 2 ^ k))"
    by (simp only: unsigned_push_bit_eq unat_low_bits) simp
  also have "\<dots> = push_bit n (unat b mod 2 ^ k)"
    using a by (intro push_bit_small [where k = k]) simp_all
  finally show ?thesis by (simp add: push_bit_eq_mult)
qed

lemma rune2_unat:
  "unat (rune2 p0 b1) = (unat p0 mod 32) * 64 + unat b1 mod 64"
proof -
  have "unat (rune2 p0 b1) = push_bit 6 (unat p0 mod 32) OR unat b1 mod 64"
    unfolding rune2_def mask2_def maskx_def mask_numerals unsigned_or_eq
    using unat_push_low [of 5 6 p0] unat_low_bits [of b1 6]
    by (simp add: push_bit_eq_mult)
  then show ?thesis
    using push_or_small [of "unat b1 mod 64" 6 "unat p0 mod 32"] by simp
qed

lemma rune3_unat:
  "unat (rune3 p0 b1 b2) = (unat p0 mod 16) * 4096 + (unat b1 mod 64) * 64 + unat b2 mod 64"
proof -
  have lo: "push_bit 6 (unat b1 mod 64) OR unat b2 mod 64 = (unat b1 mod 64) * 64 + unat b2 mod 64"
    using push_or_small [of "unat b2 mod 64" 6 "unat b1 mod 64"] by simp
  have "unat b1 mod 64 \<le> 63" "unat b2 mod 64 \<le> 63"
    using mod_less_divisor [of 64 "unat b1"] mod_less_divisor [of 64 "unat b2"] by linarith+
  then have "(unat b1 mod 64) * 64 + unat b2 mod 64 < 2 ^ 12" by simp
  from push_or_small [OF this, of "unat p0 mod 16"]
  have hi: "push_bit 12 (unat p0 mod 16) OR ((unat b1 mod 64) * 64 + unat b2 mod 64)
      = (unat p0 mod 16) * 4096 + ((unat b1 mod 64) * 64 + unat b2 mod 64)" by simp
  have "unat (rune3 p0 b1 b2)
      = push_bit 12 (unat p0 mod 16) OR (push_bit 6 (unat b1 mod 64) OR unat b2 mod 64)"
    unfolding rune3_def mask3_def maskx_def mask_numerals unsigned_or_eq
    using unat_push_low [of 4 12 p0] unat_push_low [of 6 6 b1] unat_low_bits [of b2 6]
    by (simp add: push_bit_eq_mult)
  then show ?thesis by (simp add: lo hi)
qed

lemma rune4_unat:
  "unat (rune4 p0 b1 b2 b3) =
     (unat p0 mod 8) * 262144 + (unat b1 mod 64) * 4096 + (unat b2 mod 64) * 64 + unat b3 mod 64"
proof -
  have b: "unat b1 mod 64 \<le> 63" "unat b2 mod 64 \<le> 63" "unat b3 mod 64 \<le> 63"
    using mod_less_divisor [of 64 "unat b1"] mod_less_divisor [of 64 "unat b2"]
      mod_less_divisor [of 64 "unat b3"] by linarith+
  have lo: "push_bit 6 (unat b2 mod 64) OR unat b3 mod 64 = (unat b2 mod 64) * 64 + unat b3 mod 64"
    using push_or_small [of "unat b3 mod 64" 6 "unat b2 mod 64"] by simp
  have "(unat b2 mod 64) * 64 + unat b3 mod 64 < 2 ^ 12" using b by simp
  from push_or_small [OF this, of "unat b1 mod 64"]
  have mi: "push_bit 12 (unat b1 mod 64) OR ((unat b2 mod 64) * 64 + unat b3 mod 64)
      = (unat b1 mod 64) * 4096 + ((unat b2 mod 64) * 64 + unat b3 mod 64)" by simp
  have "(unat b1 mod 64) * 4096 + ((unat b2 mod 64) * 64 + unat b3 mod 64) < 2 ^ 18"
    using b by simp
  from push_or_small [OF this, of "unat p0 mod 8"]
  have hi: "push_bit 18 (unat p0 mod 8) OR
        ((unat b1 mod 64) * 4096 + ((unat b2 mod 64) * 64 + unat b3 mod 64))
      = (unat p0 mod 8) * 262144 +
        ((unat b1 mod 64) * 4096 + ((unat b2 mod 64) * 64 + unat b3 mod 64))" by simp
  have "unat (rune4 p0 b1 b2 b3)
      = push_bit 18 (unat p0 mod 8) OR (push_bit 12 (unat b1 mod 64) OR
          (push_bit 6 (unat b2 mod 64) OR unat b3 mod 64))"
    unfolding rune4_def mask4_def maskx_def mask_numerals unsigned_or_eq
    using unat_push_low [of 3 18 p0] unat_push_low [of 6 12 b1] unat_push_low [of 6 6 b2]
      unat_low_bits [of b3 6]
    by (simp add: push_bit_eq_mult)
  then show ?thesis by (simp add: lo mi hi)
qed

lemma word_eq_unat: "((r::rune) = s) = (unat r = unat s)"
  by (simp add: word_unat_eq_iff)

text \<open>The two ranges of the table that have a stride.\<close>

lemma stride_5600:
  fixes n :: nat
  assumes "255 < n" and "n \<le> 5760"
  shows "((n - 160) mod 5600 = 0) = (n = 5760)"
proof
  assume "(n - 160) mod 5600 = 0"
  then obtain k where k: "n - 160 = 5600 * k" by (auto simp: mod_eq_0_iff_dvd)
  with assms have "k = 1" by (cases k) auto
  with k assms show "n = 5760" by simp
next
  assume "n = 5760"
  then show "(n - 160) mod 5600 = 0" by simp
qed

lemma stride_48:
  fixes n :: nat
  assumes "8239 \<le> n" and "n \<le> 8287"
  shows "((n - 8239) mod 48 = 0) = (n = 8239 \<or> n = 8287)"
proof
  assume "(n - 8239) mod 48 = 0"
  then obtain k where k: "n - 8239 = 48 * k" by (auto simp: mod_eq_0_iff_dvd)
  with assms have "k = 0 \<or> k = 1" by (cases k) auto
  with k assms show "n = 8239 \<or> n = 8287" by auto
next
  assume "n = 8239 \<or> n = 8287"
  then show "(n - 8239) mod 48 = 0" by auto
qed

lemma is16_White_Space:
  fixes w :: "16 word"
  assumes "255 < unat w"
  shows "is16 (drop (LatinOffset White_Space) (R16 White_Space)) w =
     (unat w \<in> {5760} \<union> {8192..8202} \<union> {8232, 8233, 8239, 8287, 12288})"
proof -
  have a: "unat w \<le> 5760 \<Longrightarrow> ((w - 0xa0) mod 5600 = 0) = (unat w = 5760)"
  proof -
    assume le: "unat w \<le> 5760"
    have "0xa0 \<le> w" using assms by (simp add: word_le_nat_alt)
    then have "unat (w - 0xa0) = unat w - 160" by (simp add: unat_sub)
    then have "unat ((w - 0xa0) mod 5600) = (unat w - 160) mod 5600"
      by (simp add: unat_mod)
    moreover have "((w - 0xa0) mod 5600 = 0) = (unat ((w - 0xa0) mod 5600) = 0)"
      by (simp add: unat_eq_0)
    ultimately show ?thesis using stride_5600 [OF assms le] by simp
  qed
  have b: "8239 \<le> unat w \<Longrightarrow> unat w \<le> 8287 \<Longrightarrow>
      ((w - 0x202f) mod 48 = 0) = (unat w = 8239 \<or> unat w = 8287)"
  proof -
    assume ge: "8239 \<le> unat w" and le: "unat w \<le> 8287"
    have "0x202f \<le> w" using ge by (simp add: word_le_nat_alt)
    then have "unat (w - 0x202f) = unat w - 8239" by (simp add: unat_sub)
    then have "unat ((w - 0x202f) mod 48) = (unat w - 8239) mod 48"
      by (simp add: unat_mod)
    moreover have "((w - 0x202f) mod 48 = 0) = (unat ((w - 0x202f) mod 48) = 0)"
      by (simp add: unat_eq_0)
    ultimately show ?thesis using stride_48 [OF ge le] by simp
  qed
  show ?thesis
    using assms a b
    by (auto simp: White_Space_def word_le_nat_alt word_less_nat_alt)
qed

lemma IsSpace_unat: "IsSpace r = (unat r \<in> space_codes)"
proof (cases "r \<le> MaxLatin1")
  case True
  then have "unat r \<le> 255" by (simp add: MaxLatin1_def word_le_nat_alt)
  with True show ?thesis
    by (auto simp: IsSpace_def space_codes_def word_eq_unat)
next
  case False
  then have big: "255 < unat r" by (simp add: MaxLatin1_def word_le_nat_alt)
  show ?thesis
  proof (cases "r \<le> 0x3000")
    case le: True
    then have "unat r \<le> 12288" by (simp add: word_le_nat_alt)
    then have u: "unat (ucast r :: 16 word) = unat r"
      by (simp add: unsigned_ucast_eq take_bit_nat_eq_self)
    have "IsSpace r = is16 (drop (LatinOffset White_Space) (R16 White_Space)) (ucast r)"
      using False le by (simp add: IsSpace_def isExcludingLatin_def Let_def White_Space_def)
    also have "\<dots> = (unat r \<in> {5760} \<union> {8192..8202} \<union> {8232, 8233, 8239, 8287, 12288})"
      using is16_White_Space [of "ucast r"] big by (simp only: u)
    also have "\<dots> = (unat r \<in> space_codes)"
      using big by (auto simp: space_codes_def)
    finally show ?thesis .
  next
    case gt: False
    then have "12288 < unat r" by (simp add: word_le_nat_alt)
    with False gt show ?thesis
      by (auto simp: IsSpace_def space_codes_def isExcludingLatin_def White_Space_def)
  qed
qed

lemma unat_byte_of: "unat (byte_of c) = (of_char c :: nat)"
proof -
  have "byte_of c = of_nat (of_char c)" by (simp add: byte_of_def of_nat_of_char)
  then have "unat (byte_of c) = (of_char c :: nat) mod 2 ^ 8"
    by (simp only: unat_of_nat) simp
  then show ?thesis by simp
qed

lemma char_eq_code: "(c = d) = (unat (byte_of c) = (of_char d :: nat))"
  by (simp add: unat_byte_of)

lemma cont_unat: "cont b = (128 \<le> unat b \<and> unat b \<le> 191)"
  by (simp add: cont_def word_le_nat_alt)

lemmas first_consts =
  first_def as_def xx_def s1_def s2_def s3_def s4_def s5_def s6_def s7_def

lemma seq_size2_range:
  assumes "\<not> first b \<ge> as" and "seq_size b = 2"
  shows "194 \<le> unat b \<and> unat b \<le> 223"
  using assms
  by (auto simp: seq_size_def first_consts word_le_nat_alt word_less_nat_alt split: if_splits)

lemma seq_size3_range:
  assumes "\<not> first b \<ge> as" and "seq_size b = 3" and "accepts b b1"
  shows "224 \<le> unat b \<and> unat b \<le> 239 \<and> (unat b = 224 \<longrightarrow> 160 \<le> unat b1)"
  using assms
  by (auto simp: seq_size_def accepts_def acceptRanges_def first_consts word_le_nat_alt
        word_less_nat_alt word_unat_eq_iff split: if_splits)

lemma seq_size4_range:
  assumes "\<not> first b \<ge> as" and "seq_size b \<noteq> 2" and "seq_size b \<noteq> 3" and "accepts b b1"
  shows "240 \<le> unat b \<and> unat b \<le> 244 \<and> (unat b = 240 \<longrightarrow> 144 \<le> unat b1)"
  using assms
  by (auto simp: seq_size_def accepts_def acceptRanges_def first_consts word_le_nat_alt
        word_less_nat_alt word_unat_eq_iff split: if_splits)

lemma not_IsSpace_RuneError: "\<not> IsSpace RuneError"
  by (simp add: IsSpace_unat space_codes_def RuneError_def)

lemma space_one_byte:
  assumes "byte_of c0 < 0x80" and "IsSpace (ucast (byte_of c0))"
  shows "[c0] \<in> set space_encodings"
proof -
  have "unat (byte_of c0) < 128" using assms(1) by (simp add: word_less_nat_alt)
  moreover have "unat (byte_of c0) \<in> space_codes"
    using assms(2) by (simp add: IsSpace_unat unat_ucast_byte)
  ultimately have "unat (byte_of c0) \<in> {9, 10, 11, 12, 13, 32}"
    by (auto simp: space_codes_def)
  then show ?thesis
    unfolding insert_iff empty_iff
    by (elim disjE FalseE; simp add: space_encodings_def char_eq_code)
qed

lemma div_mod_digit:
  fixes w z m :: nat
  assumes "z < m"
  shows "(w * m + z) div m = w" and "(w * m + z) mod m = z"
  using assms by simp_all

lemma digits64:
  fixes x y z :: nat
  assumes "y < 64" and "z < 64"
  shows "(x * 4096 + y * 64 + z) div 4096 = x"
    and "(x * 4096 + y * 64 + z) div 64 mod 64 = y"
    and "(x * 4096 + y * 64 + z) mod 64 = z"
proof -
  define t where "t = x * 4096 + y * 64 + z"
  have e: "t = (x * 64 + y) * 64 + z" by (simp add: t_def)
  have d: "t div 64 = x * 64 + y"
    using div_mod_digit(1) [OF assms(2), of "x * 64 + y"] by (simp only: e)
  have m: "t mod 64 = z"
    using div_mod_digit(2) [OF assms(2), of "x * 64 + y"] by (simp only: e)
  have dm: "t div 64 mod 64 = y"
    using div_mod_digit(2) [OF assms(1), of x] by (simp only: d)
  have "t div 4096 = t div 64 div 64"
    by (simp add: div_mult2_eq)
  then have dd: "t div 4096 = x"
    using div_mod_digit(1) [OF assms(1), of x] by (simp only: d)
  show "(x * 4096 + y * 64 + z) div 4096 = x"
    and "(x * 4096 + y * 64 + z) div 64 mod 64 = y"
    and "(x * 4096 + y * 64 + z) mod 64 = z"
    using dd dm m by (simp_all only: t_def)
qed

lemma low_bits:
  fixes b :: nat
  assumes "q * m \<le> b" and "b < q * m + m"
  shows "b mod m = b - q * m"
proof -
  have "b = q * m + (b - q * m)" using assms by simp
  moreover have "b - q * m < m" using assms by simp
  ultimately show ?thesis
    using div_mod_digit(2) [of "b - q * m" m q] by simp
qed

lemma low6: "128 \<le> (b::nat) \<Longrightarrow> b \<le> 191 \<Longrightarrow> b mod 64 = b - 128"
  using low_bits [of 2 64 b] by simp

lemma low5: "192 \<le> (b::nat) \<Longrightarrow> b \<le> 223 \<Longrightarrow> b mod 32 = b - 192"
  using low_bits [of 6 32 b] by simp

lemma low4: "224 \<le> (b::nat) \<Longrightarrow> b \<le> 239 \<Longrightarrow> b mod 16 = b - 224"
  using low_bits [of 14 16 b] by simp

lemma low3: "240 \<le> (b::nat) \<Longrightarrow> b \<le> 247 \<Longrightarrow> b mod 8 = b - 240"
  using low_bits [of 30 8 b] by simp

lemma space_two_bytes:
  assumes "194 \<le> unat p0 \<and> unat p0 \<le> 223" and "cont b1" and "IsSpace (rune2 p0 b1)"
  shows "unat p0 = 194 \<and> (unat b1 = 133 \<or> unat b1 = 160)"
proof -
  define x where "x = unat p0 - 192"
  define y where "y = unat b1 - 128"
  define R where "R = unat (rune2 p0 b1)"
  have b: "128 \<le> unat b1" "unat b1 \<le> 191" using assms(2) by (simp_all add: cont_unat)
  have xy: "2 \<le> x" "x < 32" "y < 64" using assms(1) b unfolding x_def y_def by linarith+
  have R: "R = x * 64 + y"
    using assms(1) b by (simp add: R_def rune2_unat low5 low6 x_def y_def)
  have "R \<in> space_codes" using assms(3) by (simp add: IsSpace_unat R_def)
  moreover have "128 \<le> R" "R < 2048" using R xy by simp_all
  ultimately have "R = 133 \<or> R = 160" by (auto simp: space_codes_def)
  moreover have "R div 64 = x" "R mod 64 = y"
    using div_mod_digit [OF xy(3), of x] by (simp_all add: R)
  ultimately have "x = 2 \<and> (y = 5 \<or> y = 32)" by auto
  then show ?thesis using assms(1) b by (auto simp: x_def y_def)
qed

lemma space_three_bytes:
  assumes "224 \<le> unat p0 \<and> unat p0 \<le> 239 \<and> (unat p0 = 224 \<longrightarrow> 160 \<le> unat b1)"
    and "cont b1" and "cont b2" and "IsSpace (rune3 p0 b1 b2)"
  shows "(unat p0, unat b1, unat b2) \<in>
      {(225, 154, 128),
       (226, 128, 128), (226, 128, 129), (226, 128, 130), (226, 128, 131), (226, 128, 132),
       (226, 128, 133), (226, 128, 134), (226, 128, 135), (226, 128, 136), (226, 128, 137),
       (226, 128, 138), (226, 128, 168), (226, 128, 169), (226, 128, 175), (226, 129, 159),
       (227, 128, 128)}"
proof -
  define x where "x = unat p0 - 224"
  define y where "y = unat b1 - 128"
  define z where "z = unat b2 - 128"
  define R where "R = unat (rune3 p0 b1 b2)"
  have b: "128 \<le> unat b1" "unat b1 \<le> 191" "128 \<le> unat b2" "unat b2 \<le> 191"
    using assms(2,3) by (simp_all add: cont_unat)
  have xyz: "x < 16" "y < 64" "z < 64" "x = 0 \<longrightarrow> 32 \<le> y"
    using assms(1) b by (auto simp: x_def y_def z_def)
  have R: "R = x * 4096 + y * 64 + z"
    using assms(1) b by (simp add: R_def rune3_unat low4 low6 x_def y_def z_def)
  have bytes: "unat p0 = 224 + x" "unat b1 = 128 + y" "unat b2 = 128 + z"
    using assms(1) b by (simp_all add: x_def y_def z_def)
  have digits: "x = R div 4096" "y = R div 64 mod 64" "z = R mod 64"
    using digits64 [OF xyz(2,3), of x] by (simp_all add: R)
  have "2048 \<le> R" using R xyz by (cases "x = 0") simp_all
  moreover have "R \<in> space_codes" using assms(4) by (simp add: IsSpace_unat R_def)
  ultimately have "R \<in> {5760} \<union> {8192..8202} \<union> {8232, 8233, 8239, 8287, 12288}"
    by (auto simp: space_codes_def)
  then have "R = 5760 \<or> R = 8192 \<or> R = 8193 \<or> R = 8194 \<or> R = 8195 \<or> R = 8196 \<or> R = 8197
      \<or> R = 8198 \<or> R = 8199 \<or> R = 8200 \<or> R = 8201 \<or> R = 8202 \<or> R = 8232 \<or> R = 8233
      \<or> R = 8239 \<or> R = 8287 \<or> R = 12288"
    by (simp add: atLeastAtMost_iff) arith
  then show ?thesis
    by (elim disjE; simp add: bytes digits)
qed

lemma space_four_bytes:
  assumes "240 \<le> unat p0 \<and> unat p0 \<le> 244 \<and> (unat p0 = 240 \<longrightarrow> 144 \<le> unat b1)"
    and "cont b1"
  shows "\<not> IsSpace (rune4 p0 b1 b2 b3)"
proof -
  define x where "x = unat p0 - 240"
  define y where "y = unat b1 - 128"
  have b: "128 \<le> unat b1" "unat b1 \<le> 191" using assms(2) by (simp_all add: cont_unat)
  have xy: "x = 0 \<longrightarrow> 16 \<le> y" using assms(1) b by (auto simp: x_def y_def)
  have "unat (rune4 p0 b1 b2 b3) \<ge> x * 262144 + y * 4096"
    using assms(1) b by (simp add: rune4_unat low3 low6 x_def y_def)
  moreover have "65536 \<le> x * 262144 + y * 4096" using xy by (cases "x = 0") simp_all
  ultimately have "65536 \<le> unat (rune4 p0 b1 b2 b3)" by simp
  then show ?thesis by (auto simp: IsSpace_unat space_codes_def)
qed

text \<open>
  If the first rune of a text is white space, the text starts with the encoding of it.
\<close>

lemma DecodeRune_space_prefix:
  assumes "IsSpace (fst (DecodeRune p))"
  shows "\<exists>e\<in>set space_encodings. prefix e p \<and> snd (DecodeRune p) = length e"
proof (cases p)
  case Nil
  with assms show ?thesis by (simp add: DecodeRune_Nil not_IsSpace_RuneError)
next
  case (Cons c0 q)
  show ?thesis
  proof (cases "first (byte_of c0) \<ge> as")
    case True
    have ne: "xx \<noteq> as" by (simp add: xx_def as_def)
    from first_single [OF True] assms ne
    have a: "byte_of c0 < 0x80" and d: "DecodeRune p = (ucast (byte_of c0), 1)"
      by (auto simp: Cons DecodeRune_single [OF True] not_IsSpace_RuneError split: if_splits)
    from assms d have "[c0] \<in> set space_encodings"
      by (intro space_one_byte [OF a]) simp
    then show ?thesis using d by (intro bexI [of _ "[c0]"]) (simp_all add: Cons)
  next
    case False
    note lead = DecodeRune_lead [OF False]
    note ac = accepts_cont [OF False]
    show ?thesis
    proof (cases "seq_size (byte_of c0) = 2")
      case True
      from assms obtain c1 q1 where q: "q = c1 # q1"
        and acc: "accepts (byte_of c0) (byte_of c1)"
        and d: "DecodeRune p = (rune2 (byte_of c0) (byte_of c1), 2)"
        by (auto simp: Cons lead True not_IsSpace_RuneError split: list.splits if_splits)
      from space_two_bytes [OF seq_size2_range [OF False True] ac [OF acc]] assms d
      have "unat (byte_of c0) = 194 \<and> (unat (byte_of c1) = 133 \<or> unat (byte_of c1) = 160)"
        by simp
      then have "[c0, c1] \<in> set space_encodings"
        by (elim conjE disjE; simp add: space_encodings_def char_eq_code)
      then show ?thesis using d by (intro bexI [of _ "[c0, c1]"]) (simp_all add: Cons q)
    next
      case n2: False
      show ?thesis
      proof (cases "seq_size (byte_of c0) = 3")
        case True
        from assms obtain c1 c2 q2 where q: "q = c1 # c2 # q2"
          and acc: "accepts (byte_of c0) (byte_of c1)" and c2: "cont (byte_of c2)"
          and d: "DecodeRune p = (rune3 (byte_of c0) (byte_of c1) (byte_of c2), 3)"
          by (auto simp: Cons lead True not_IsSpace_RuneError split: list.splits if_splits)
        from assms d have sp: "IsSpace (rune3 (byte_of c0) (byte_of c1) (byte_of c2))" by simp
        from space_three_bytes [OF seq_size3_range [OF False True acc] ac [OF acc] c2 sp]
        have "[c0, c1, c2] \<in> set space_encodings"
          unfolding insert_iff empty_iff prod.inject
          by (elim conjE disjE FalseE; simp add: space_encodings_def char_eq_code)
        then show ?thesis using d by (intro bexI [of _ "[c0, c1, c2]"]) (simp_all add: Cons q)
      next
        case n3: False
        from assms obtain c1 c2 c3 q3 where q: "q = c1 # c2 # c3 # q3"
          and acc: "accepts (byte_of c0) (byte_of c1)"
          and d: "DecodeRune p =
            (rune4 (byte_of c0) (byte_of c1) (byte_of c2) (byte_of c3), 4)"
          by (auto simp: Cons lead n2 n3 not_IsSpace_RuneError split: list.splits if_splits)
        from space_four_bytes [OF seq_size4_range [OF False n2 n3 acc] ac [OF acc]] assms d
        show ?thesis by simp
      qed
    qed
  qed
qed

section \<open>Trimming on the left\<close>

text \<open>The rune the scanning loops look at: the ASCII shortcut agrees with the decoder.\<close>

lemma ascii_shortcut:
  assumes "p \<noteq> []"
  shows "(if (ucast (byte_of (p ! 0)) :: rune) \<ge> RuneSelf then DecodeRune p
          else (ucast (byte_of (p ! 0)), 1)) = DecodeRune p"
proof -
  obtain c q where p: "p = c # q" using assms by (cases p) auto
  show ?thesis
    by (auto simp: p ucast_RuneSelf not_le DecodeRune_ascii)
qed

lemma loop_rune:
  assumes "start < length s"
  shows "(if (ucast (byte_of (s ! start)) :: rune) \<ge> RuneSelf then DecodeRune (drop start s)
          else (ucast (byte_of (s ! start)), 1)) = DecodeRune (drop start s)"
proof -
  have ne: "drop start s \<noteq> []" using assms by simp
  have hd: "drop start s ! 0 = s ! start" using assms by simp
  from ascii_shortcut [OF ne] show ?thesis by (simp only: hd)
qed

lemma indexFunc_loop_step:
  assumes "start < length s"
  shows "indexFunc_loop s f truth start =
     (if f (fst (DecodeRune (drop start s))) = truth then int start
      else indexFunc_loop s f truth (start + snd (DecodeRune (drop start s))))"
  using assms loop_rune [OF assms]
  by (subst indexFunc_loop.simps) (simp add: Let_def)

lemma indexFunc_loop_end:
  "length s \<le> start \<Longrightarrow> indexFunc_loop s f truth start = - 1"
  by (subst indexFunc_loop.simps) simp

lemma indexFunc_loop_shift:
  "indexFunc_loop (e @ s) f truth (length e + k) =
     (let i = indexFunc_loop s f truth k in if i = - 1 then - 1 else int (length e) + i)"
proof (induction s f truth k rule: indexFunc_loop.induct)
  case (1 s f truth start)
  show ?case
  proof (cases "start < length s")
    case False
    then show ?thesis by (simp add: indexFunc_loop_end)
  next
    case True
    let ?rw = "DecodeRune (drop start s)"
    have st: "length e + start < length (e @ s)" using True by simp
    have dr: "drop (length e + start) (e @ s) = drop start s" by simp
    show ?thesis
    proof (cases "f (fst ?rw) = truth")
      case t: True
      then show ?thesis
        by (simp add: indexFunc_loop_step [OF st] indexFunc_loop_step [OF True] dr
              del: length_append)
    next
      case nt: False
      note rw = loop_rune [OF True]
      have IH: "indexFunc_loop (e @ s) f truth (length e + (start + snd ?rw)) =
          (let i = indexFunc_loop s f truth (start + snd ?rw) in
           if i = - 1 then - 1 else int (length e) + i)"
        using "1.IH" [OF True refl refl] nt by (simp add: rw)
      show ?thesis
        using nt IH
        by (simp add: indexFunc_loop_step [OF st] indexFunc_loop_step [OF True] dr add.assoc
              del: length_append)
    qed
  qed
qed

lemma indexFunc_loop_range:
  "indexFunc_loop s f truth k = - 1 \<or>
   (int k \<le> indexFunc_loop s f truth k \<and> indexFunc_loop s f truth k < int (length s))"
proof (induction s f truth k rule: indexFunc_loop.induct)
  case (1 s f truth start)
  show ?case
  proof (cases "start < length s")
    case False
    then show ?thesis by (simp add: indexFunc_loop_end)
  next
    case True
    let ?rw = "DecodeRune (drop start s)"
    note rw = loop_rune [OF True]
    show ?thesis
    proof (cases "f (fst ?rw) = truth")
      case t: True
      with True show ?thesis by (simp add: indexFunc_loop_step [OF True])
    next
      case nt: False
      have "indexFunc_loop s f truth (start + snd ?rw) = - 1 \<or>
         (int (start + snd ?rw) \<le> indexFunc_loop s f truth (start + snd ?rw) \<and>
          indexFunc_loop s f truth (start + snd ?rw) < int (length s))"
        using "1.IH" [OF True refl refl] nt by (simp add: rw)
      with nt show ?thesis by (auto simp: indexFunc_loop_step [OF True])
    qed
  qed
qed

lemma TrimLeftFunc_Nil: "TrimLeftFunc [] f = []"
  by (simp add: TrimLeftFunc_def indexFunc_def indexFunc_loop_end)

lemma TrimLeftFunc_keep:
  assumes "s \<noteq> []" and "\<not> IsSpace (fst (DecodeRune s))"
  shows "TrimLeftFunc s IsSpace = s"
proof -
  have "0 < length s" using assms(1) by simp
  from indexFunc_loop_step [OF this] assms(2)
  have "indexFunc_loop s IsSpace False 0 = 0" by simp
  then show ?thesis by (simp add: TrimLeftFunc_def indexFunc_def)
qed

lemma TrimLeftFunc_skip:
  assumes "e \<in> set space_encodings"
  shows "TrimLeftFunc (e @ s) IsSpace = TrimLeftFunc s IsSpace"
proof -
  have ne: "e \<noteq> []" using assms by (rule space_encodings_nonempty)
  then have "0 < length (e @ s)" by simp
  from indexFunc_loop_step [OF this] DecodeRune_space_encoding [OF assms, of s]
  have "indexFunc_loop (e @ s) IsSpace False 0 = indexFunc_loop (e @ s) IsSpace False (length e + 0)"
    by simp
  also have "\<dots> = (let i = indexFunc_loop s IsSpace False 0 in
                     if i = - 1 then - 1 else int (length e) + i)"
    by (rule indexFunc_loop_shift)
  finally have i: "indexFunc (e @ s) IsSpace False =
      (let i = indexFunc s IsSpace False in if i = - 1 then - 1 else int (length e) + i)"
    by (simp add: indexFunc_def)
  have r: "indexFunc s IsSpace False = - 1 \<or> 0 \<le> indexFunc s IsSpace False"
    using indexFunc_loop_range [of s IsSpace False 0] by (auto simp: indexFunc_def)
  show ?thesis
  proof (cases "indexFunc s IsSpace False = - 1")
    case True
    then show ?thesis by (simp add: TrimLeftFunc_def i)
  next
    case False
    with r have nn: "0 \<le> indexFunc s IsSpace False" by simp
    then have "nat (int (length e) + indexFunc s IsSpace False)
        = length e + nat (indexFunc s IsSpace False)"
      by (simp add: nat_add_distrib)
    with False nn show ?thesis
      by (simp add: TrimLeftFunc_def i Let_def)
  qed
qed

lemma no_space_prefix:
  assumes "find (\<lambda>e. prefix e s) space_encodings = None" and "s \<noteq> []"
  shows "\<not> IsSpace (fst (DecodeRune s))"
proof
  assume "IsSpace (fst (DecodeRune s))"
  from DecodeRune_space_prefix [OF this] assms(1) show False
    by (auto simp: find_None_iff)
qed

text \<open>
  The forward scan stops at the first rune that is not white space, so what it leaves is
  what the specification's trimming on the left leaves.
\<close>

lemma TrimLeftFunc_spec: "TrimLeftFunc s IsSpace = trim_leading s"
proof (induction s rule: trim_leading.induct)
  case (1 s)
  show ?case
  proof (cases "find (\<lambda>e. prefix e s) space_encodings")
    case None
    then have t: "trim_leading s = s" by (subst trim_leading.simps) simp
    show ?thesis
    proof (cases "s = []")
      case True
      with t show ?thesis by (simp add: TrimLeftFunc_Nil)
    next
      case False
      from TrimLeftFunc_keep [OF False no_space_prefix [OF None False]] t
      show ?thesis by simp
    qed
  next
    case (Some e)
    then have e: "e \<in> set space_encodings" "prefix e s" by (auto simp: find_Some_iff)
    then obtain r where s: "s = e @ r" by (auto simp: prefix_def)
    have "trim_leading s = trim_leading (drop (length e) s)"
      using Some by (subst trim_leading.simps) simp
    also have "\<dots> = TrimLeftFunc (drop (length e) s) IsSpace"
      using "1.IH" [OF Some] by simp
    also have "\<dots> = TrimLeftFunc s IsSpace"
      using TrimLeftFunc_skip [OF e(1), of r] by (simp add: s)
    finally show ?thesis by simp
  qed
qed

section \<open>Trimming on the right\<close>

lemma DecodeRune_single_high:
  assumes "0x80 \<le> byte_of c"
  shows "DecodeRune [c] = (RuneError, 1)"
proof (cases "first (byte_of c) \<ge> as")
  case True
  from first_single [OF True] assms have "first (byte_of c) = xx"
    by (auto simp: word_le_nat_alt word_less_nat_alt)
  moreover have "xx \<noteq> as" by (simp add: xx_def as_def)
  ultimately show ?thesis by (simp add: DecodeRune_single [OF True])
next
  case False
  then show ?thesis by (simp add: DecodeRune_lead)
qed

lemma space_encoding_first:
  assumes "e \<in> set space_encodings"
  shows "\<not> cont (byte_of (hd e))"
    and "length e = 1 \<Longrightarrow> byte_of (hd e) < 0x80"
proof -
  from DecodeRune_space_encoding [OF assms, of "[]"]
  have sp: "IsSpace (fst (DecodeRune e))" and sz: "snd (DecodeRune e) = length e" by simp_all
  have ne: "e \<noteq> []" using assms by (rule space_encodings_nonempty)
  show one: "byte_of (hd e) < 0x80" if "length e = 1"
  proof (rule ccontr)
    assume "\<not> byte_of (hd e) < 0x80"
    then have h: "0x80 \<le> byte_of (hd e)" by (simp add: not_less)
    from that ne have "e = [hd e]" by (cases e) auto
    with DecodeRune_single_high [OF h] have "DecodeRune e = (RuneError, 1)" by simp
    with sp show False by (simp add: not_IsSpace_RuneError)
  qed
  show "\<not> cont (byte_of (hd e))"
  proof (cases "length e = 1")
    case True
    from one [OF True] show ?thesis by (rule ascii_not_cont)
  next
    case False
    moreover have "length e \<noteq> 0" using ne by simp
    ultimately have "2 \<le> snd (DecodeRune e)" unfolding sz by linarith
    from DecodeRune_multi_bytes(1) [OF this] ne show ?thesis by (simp add: hd_conv_nth)
  qed
qed

lemma DecodeLastRune_space_encoding:
  assumes "e \<in> set space_encodings"
  shows "IsSpace (fst (DecodeLastRune (x @ e))) \<and> snd (DecodeLastRune (x @ e)) = length e"
proof -
  from DecodeRune_space_encoding [OF assms, of "[]"]
  have sp: "IsSpace (fst (DecodeRune e))" and sz: "snd (DecodeRune e) = length e" by simp_all
  have ne: "e \<noteq> []" using assms by (rule space_encodings_nonempty)
  show ?thesis
  proof (cases "length e = 1")
    case True
    with ne obtain c where e: "e = [c]" by (cases e) auto
    from space_encoding_first(2) [OF assms True] have a: "byte_of c < 0x80" by (simp add: e)
    have "DecodeLastRune (x @ e) = (ucast (byte_of c), 1)"
      using DecodeLastRune_ascii [of "x @ e"] a by (simp add: e)
    moreover have "DecodeRune e = (ucast (byte_of c), 1)"
      using DecodeRune_ascii [OF a, of "[]"] by (simp add: e)
    ultimately show ?thesis using sp by (simp add: e)
  next
    case False
    moreover have "length e \<noteq> 0" using ne by simp
    ultimately have len: "2 \<le> length e" by linarith
    have "DecodeRune e = (fst (DecodeRune e), length e)" using sz by (simp add: prod_eq_iff)
    from DecodeLastRune_multi [OF this len, of x] sp show ?thesis by simp
  qed
qed

lemma DecodeLastRune_size_le: "snd (DecodeLastRune p) \<le> length p"
proof (cases "p = []")
  case True
  then show ?thesis by (simp add: DecodeLastRune_Nil)
next
  case False
  show ?thesis
  proof (cases "byte_of (last p) < 0x80")
    case True
    from DecodeLastRune_ascii [OF False True] False show ?thesis
      by (cases p) auto
  next
    case h: False
    then have "0x80 \<le> byte_of (last p)" by (simp add: not_less)
    from DecodeLastRune_multi_inv [OF False this, of "fst (DecodeLastRune p)" "snd (DecodeLastRune p)"]
      False
    show ?thesis by (cases p) auto
  qed
qed

text \<open>
  If the last rune of a text is white space, the text ends with the encoding of it.
\<close>

lemma DecodeLastRune_space_suffix:
  assumes "IsSpace (fst (DecodeLastRune p))"
  shows "\<exists>e\<in>set space_encodings. suffix e p \<and> snd (DecodeLastRune p) = length e"
proof (cases "p = []")
  case True
  with assms show ?thesis by (simp add: DecodeLastRune_Nil not_IsSpace_RuneError)
next
  case False
  show ?thesis
  proof (cases "byte_of (last p) < 0x80")
    case True
    note d = DecodeLastRune_ascii [OF False True]
    from assms d have "[last p] \<in> set space_encodings"
      by (intro space_one_byte [OF True]) simp
    moreover have "suffix [last p] p"
      using False by (metis append_butlast_last_id suffixI)
    ultimately show ?thesis using d by (intro bexI [of _ "[last p]"]) simp_all
  next
    case h: False
    then have hi: "0x80 \<le> byte_of (last p)" by (simp add: not_less)
    obtain rr sz where d: "DecodeLastRune p = (rr, sz)" by (cases "DecodeLastRune p")
    from DecodeLastRune_multi_inv [OF False hi d] assms d
    have le: "sz \<le> length p" and dr: "DecodeRune (drop (length p - sz) p) = (rr, sz)"
      by (auto simp: not_IsSpace_RuneError)
    from assms d dr have "IsSpace (fst (DecodeRune (drop (length p - sz) p)))" by simp
    from DecodeRune_space_prefix [OF this] dr
    obtain e where e: "e \<in> set space_encodings" "prefix e (drop (length p - sz) p)"
      "sz = length e" by auto
    from e(2) obtain r where r: "drop (length p - sz) p = e @ r" by (auto simp: prefix_def)
    then have "length (drop (length p - sz) p) = length e + length r" by simp
    with e(3) le have "r = []" by simp
    with r have "e = drop (length p - sz) p" by simp
    then have "suffix e p" by (simp add: suffix_drop)
    with e d show ?thesis by auto
  qed
qed

lemma last_rune:
  assumes "p \<noteq> []"
  shows "(if (ucast (byte_of (p ! (length p - 1))) :: rune) \<ge> RuneSelf then DecodeLastRune p
          else (ucast (byte_of (p ! (length p - 1))), 1)) = DecodeLastRune p"
proof -
  have l: "p ! (length p - 1) = last p" using assms by (simp add: last_conv_nth)
  show ?thesis
    unfolding l using DecodeLastRune_ascii [OF assms]
    by (auto simp: ucast_RuneSelf not_le)
qed

lemma lastIndexFunc_loop_Nil: "lastIndexFunc_loop [] f truth = - 1"
  by (subst lastIndexFunc_loop.simps) simp

lemma lastIndexFunc_loop_step:
  assumes "p \<noteq> []"
  shows "lastIndexFunc_loop p f truth =
     (if f (fst (DecodeLastRune p)) = truth then int (length p - snd (DecodeLastRune p))
      else lastIndexFunc_loop (take (length p - snd (DecodeLastRune p)) p) f truth)"
  using assms
  by (subst lastIndexFunc_loop.simps, simp only: Let_def last_rune [OF assms]) simp

lemma lastIndexFunc_loop_range:
  "- 1 \<le> lastIndexFunc_loop p f truth \<and> lastIndexFunc_loop p f truth < int (length p)"
proof (induction p f truth rule: lastIndexFunc_loop.induct)
  case (1 p f truth)
  show ?case
  proof (cases "p = []")
    case True
    then show ?thesis by (simp add: lastIndexFunc_loop_Nil)
  next
    case False
    let ?rs = "DecodeLastRune p"
    have pos: "0 < snd ?rs" using False by (rule DecodeLastRune_size_pos)
    have len: "0 < length p" using False by simp
    show ?thesis
    proof (cases "f (fst ?rs) = truth")
      case True
      with pos len show ?thesis by (simp add: lastIndexFunc_loop_step [OF False])
    next
      case nt: False
      note ih = "1.IH" [OF refl len refl refl refl, unfolded last_rune [OF False]]
      have "- 1 \<le> lastIndexFunc_loop (take (length p - snd ?rs) p) f truth \<and>
          lastIndexFunc_loop (take (length p - snd ?rs) p) f truth
            < int (length (take (length p - snd ?rs) p))"
        using nt by (intro ih) simp
      with nt show ?thesis by (auto simp: lastIndexFunc_loop_step [OF False])
    qed
  qed
qed

lemma TrimRightFunc_Nil: "TrimRightFunc [] f = []"
  by (simp add: TrimRightFunc_def)

lemma TrimRightFunc_keep:
  assumes ne: "s \<noteq> []" and ns: "\<not> IsSpace (fst (DecodeLastRune s))"
  shows "TrimRightFunc s IsSpace = s"
proof -
  obtain rr sz where d: "DecodeLastRune s = (rr, sz)" by (cases "DecodeLastRune s")
  have pos: "0 < sz" using DecodeLastRune_size_pos [OF ne] d by simp
  have le: "sz \<le> length s" using DecodeLastRune_size_le [of s] d by simp
  define i where "i = length s - sz"
  have i: "lastIndexFunc s IsSpace False = int i"
    using ns d by (simp add: lastIndexFunc_def lastIndexFunc_loop_step [OF ne] i_def)
  have ilt: "i < length s" using pos le ne by (simp add: i_def)
  have w: "(if (ucast (byte_of (s ! i)) :: rune) \<ge> RuneSelf
            then i + snd (DecodeRune (drop i s)) else i + 1) = length s"
  proof (cases "byte_of (last s) < 0x80")
    case True
    from DecodeLastRune_ascii [OF ne True] d have "sz = 1" by simp
    then have il: "i + 1 = length s" using ne by (simp add: i_def)
    then have "i = length s - 1" by simp
    then have "s ! i = last s" using ne by (simp add: last_conv_nth)
    with True have "\<not> (ucast (byte_of (s ! i)) :: rune) \<ge> RuneSelf"
      by (simp add: ucast_RuneSelf not_le)
    with il show ?thesis by simp
  next
    case False
    then have hi: "0x80 \<le> byte_of (last s)" by (simp add: not_less)
    from DecodeLastRune_multi_inv [OF ne hi d]
    consider "sz = 1" | "DecodeRune (drop i s) = (rr, sz)" by (auto simp: i_def)
    then show ?thesis
    proof cases
      case 1
      then have il: "i + 1 = length s" using ne by (simp add: i_def)
      then have "i = length (butlast s)" by simp
      then have "drop i s = [last s]" using ne
        by (metis append_butlast_last_id append_eq_conv_conj)
      then have "snd (DecodeRune (drop i s)) = 1"
        using DecodeRune_single_high [OF hi] by simp
      with il show ?thesis by simp
    next
      case 2
      show ?thesis
      proof (cases "(ucast (byte_of (s ! i)) :: rune) \<ge> RuneSelf")
        case True
        with 2 le show ?thesis by (simp add: i_def)
      next
        case f: False
        then have a: "byte_of (s ! i) < 0x80" by (simp add: ucast_RuneSelf not_le)
        have "drop i s = s ! i # drop (Suc i) s" using ilt by (simp add: Cons_nth_drop_Suc)
        with DecodeRune_ascii [OF a, of "drop (Suc i) s"] 2 have "sz = 1" by simp
        with f le pos show ?thesis by (simp add: i_def)
      qed
    qed
  qed
  have "TrimRightFunc s IsSpace = take (length s) s"
    using w i ilt unfolding TrimRightFunc_def Let_def
    by (simp split: if_splits)
  then show ?thesis by simp
qed

lemma lastIndexFunc_loop_skip:
  assumes "e \<in> set space_encodings"
  shows "lastIndexFunc_loop (s @ e) IsSpace False = lastIndexFunc_loop s IsSpace False"
proof -
  have ne: "s @ e \<noteq> []" using space_encodings_nonempty [OF assms] by simp
  from DecodeLastRune_space_encoding [OF assms, of s] show ?thesis
    by (simp add: lastIndexFunc_loop_step [OF ne])
qed

lemma TrimRightFunc_skip:
  assumes "e \<in> set space_encodings"
  shows "TrimRightFunc (s @ e) IsSpace = TrimRightFunc s IsSpace"
proof -
  define p where "p = s @ e"
  define i where "i = lastIndexFunc s IsSpace False"
  have i': "lastIndexFunc p IsSpace False = i"
    by (simp add: lastIndexFunc_def lastIndexFunc_loop_skip [OF assms] i_def p_def)
  have r: "- 1 \<le> i" "i < int (length s)"
    using lastIndexFunc_loop_range [of s IsSpace False] by (simp_all add: i_def lastIndexFunc_def)
  have "TrimRightFunc p IsSpace = TrimRightFunc s IsSpace"
  proof (cases "0 \<le> i")
    case False
    with r have "i = - 1" by simp
    then show ?thesis
      unfolding TrimRightFunc_def i' i_def [symmetric] by simp
  next
    case True
    with r have lt: "nat i < length s" by simp
    then have nth: "p ! nat i = s ! nat i" by (simp add: nth_append p_def)
    obtain a e' where e: "e = a # e'"
      using space_encodings_nonempty [OF assms] by (cases e) auto
    have na: "\<not> cont (byte_of a)" using space_encoding_first(1) [OF assms] by (simp add: e)
    have dne: "drop (nat i) s \<noteq> []" using lt by simp
    have "drop (nat i) p = drop (nat i) s @ a # e'" using lt by (simp add: e p_def)
    then have dec: "DecodeRune (drop (nat i) p) = DecodeRune (drop (nat i) s)"
      using DecodeRune_append_start [OF dne na] by simp
    define j where "j = (if (ucast (byte_of (s ! nat i)) :: rune) \<ge> RuneSelf
        then i + int (snd (DecodeRune (drop (nat i) s))) else i + 1)"
    have "snd (DecodeRune (drop (nat i) s)) \<le> length (drop (nat i) s)"
      using DecodeRune_size_bounds(2) [OF dne] .
    then have jle: "nat j \<le> length s" using lt True by (auto simp: j_def)
    have "TrimRightFunc p IsSpace = take (nat j) p"
      unfolding TrimRightFunc_def i' Let_def using True by (simp add: nth dec j_def)
    also have "\<dots> = take (nat j) s" using jle by (simp add: p_def)
    also have "\<dots> = TrimRightFunc s IsSpace"
      unfolding TrimRightFunc_def i_def [symmetric] Let_def using True by (simp add: j_def)
    finally show ?thesis .
  qed
  then show ?thesis by (simp add: p_def)
qed

lemma no_space_suffix:
  assumes "find (\<lambda>e. suffix e s) space_encodings = None"
  shows "\<not> IsSpace (fst (DecodeLastRune s))"
proof
  assume "IsSpace (fst (DecodeLastRune s))"
  from DecodeLastRune_space_suffix [OF this] assms show False
    by (auto simp: find_None_iff)
qed

text \<open>The same for the backward scan.\<close>

lemma TrimRightFunc_spec: "TrimRightFunc s IsSpace = trim_trailing s"
proof (induction s rule: trim_trailing.induct)
  case (1 s)
  show ?case
  proof (cases "find (\<lambda>e. suffix e s) space_encodings")
    case None
    then have t: "trim_trailing s = s" by (subst trim_trailing.simps) simp
    show ?thesis
    proof (cases "s = []")
      case True
      with t show ?thesis by (simp add: TrimRightFunc_Nil)
    next
      case False
      from TrimRightFunc_keep [OF False no_space_suffix [OF None]] t
      show ?thesis by simp
    qed
  next
    case (Some e)
    then have e: "e \<in> set space_encodings" "suffix e s" by (auto simp: find_Some_iff)
    then obtain r where s: "s = r @ e" by (auto simp: suffix_def)
    have "trim_trailing s = trim_trailing (take (length s - length e) s)"
      using Some by (subst trim_trailing.simps) simp
    also have "\<dots> = TrimRightFunc (take (length s - length e) s) IsSpace"
      using "1.IH" [OF Some] by simp
    also have "\<dots> = TrimRightFunc s IsSpace"
      using TrimRightFunc_skip [OF e(1), of r] by (simp add: s)
    finally show ?thesis by simp
  qed
qed

text \<open>Both ends.\<close>

lemma TrimFunc_spec: "TrimFunc s IsSpace = trim_spec s"
  by (simp add: TrimFunc_def trim_spec_def TrimLeftFunc_spec TrimRightFunc_spec)

section \<open>The fast path\<close>

lemma asciiSpace_encoding:
  assumes "asciiSpace (byte_of c) \<noteq> 0"
  shows "[c] \<in> set space_encodings"
proof -
  from assms have "unat (byte_of c) \<in> {9, 10, 11, 12, 13, 32}"
    by (auto simp: asciiSpace_def word_unat_eq_iff split: if_splits)
  then show ?thesis
    unfolding insert_iff empty_iff
    by (elim disjE FalseE; simp add: space_encodings_def char_eq_code)
qed

lemma asciiSpace_not_space:
  assumes "asciiSpace (byte_of c) = 0" and "byte_of c < 0x80"
  shows "\<not> IsSpace (ucast (byte_of c))"
proof -
  have "unat (byte_of c) < 128" using assms(2) by (simp add: word_less_nat_alt)
  moreover have "unat (byte_of c) \<notin> {9, 10, 11, 12, 13, 32}"
    using assms(1) by (auto simp: asciiSpace_def word_unat_eq_iff split: if_splits)
  ultimately show ?thesis
    by (auto simp: IsSpace_unat unat_ucast_byte space_codes_def)
qed

lemma TrimLeftFunc_solid_byte:
  assumes "solid_byte c"
  shows "TrimLeftFunc (c # r) IsSpace = c # r"
proof -
  from assms have a: "byte_of c < 0x80" and z: "asciiSpace (byte_of c) = 0"
    by (simp_all add: solid_byte_def)
  have "\<not> IsSpace (fst (DecodeRune (c # r)))"
    using asciiSpace_not_space [OF z a] by (simp add: DecodeRune_ascii [OF a])
  then show ?thesis by (intro TrimLeftFunc_keep) simp_all
qed

lemma TrimRightFunc_solid_byte:
  assumes "solid_byte c"
  shows "TrimRightFunc (r @ [c]) IsSpace = r @ [c]"
proof -
  from assms have a: "byte_of c < 0x80" and z: "asciiSpace (byte_of c) = 0"
    by (simp_all add: solid_byte_def)
  have "DecodeLastRune (r @ [c]) = (ucast (byte_of c), 1)"
    using DecodeLastRune_ascii [of "r @ [c]"] a by simp
  then have "\<not> IsSpace (fst (DecodeLastRune (r @ [c])))"
    using asciiSpace_not_space [OF z a] by simp
  then show ?thesis by (intro TrimRightFunc_keep) simp_all
qed

lemma TrimSpace_start_step:
  assumes "start < length s"
  shows "TrimSpace_start s start =
     (if 0x80 \<le> byte_of (s ! start) then Inl (TrimFunc (drop start s) IsSpace)
      else if asciiSpace (byte_of (s ! start)) = 0 then Inr start
      else TrimSpace_start s (start + 1))"
  using assms by (subst TrimSpace_start.simps) (simp add: Let_def ucast_RuneSelf)

lemma TrimSpace_start_end:
  "length s \<le> start \<Longrightarrow> TrimSpace_start s start = Inr start"
  by (subst TrimSpace_start.simps) simp

lemma TrimSpace_start_spec:
  "k \<le> length s \<Longrightarrow>
   (case TrimSpace_start s k of
      Inl res \<Rightarrow> res = TrimFunc (drop k s) IsSpace
    | Inr st \<Rightarrow> k \<le> st \<and> st \<le> length s \<and> TrimLeftFunc (drop k s) IsSpace = drop st s \<and>
        (st < length s \<longrightarrow> solid_byte (s ! st)))"
proof (induction s k rule: TrimSpace_start.induct)
  case (1 s start)
  show ?case
  proof (cases "start < length s")
    case False
    with "1.prems" show ?thesis
      by (simp add: TrimSpace_start_end TrimLeftFunc_Nil)
  next
    case True
    note step = TrimSpace_start_step [OF True]
    have dr: "drop start s = s ! start # drop (Suc start) s"
      using True by (simp add: Cons_nth_drop_Suc)
    show ?thesis
    proof (cases "0x80 \<le> byte_of (s ! start)")
      case hi: True
      then show ?thesis by (simp add: step)
    next
      case lo: False
      show ?thesis
      proof (cases "asciiSpace (byte_of (s ! start)) = 0")
        case z: True
        from lo z have sb: "solid_byte (s ! start)" by (simp add: solid_byte_def not_le)
        from TrimLeftFunc_solid_byte [OF sb, of "drop (Suc start) s"]
        have "TrimLeftFunc (drop start s) IsSpace = drop start s" by (simp only: dr)
        with lo z True sb show ?thesis by (simp add: step)
      next
        case nz: False
        have skip: "TrimLeftFunc (drop start s) IsSpace = TrimLeftFunc (drop (Suc start) s) IsSpace"
          using TrimLeftFunc_skip [OF asciiSpace_encoding [OF nz], of "drop (Suc start) s"]
          by (simp add: dr)
        have "ucast (byte_of (s ! start)) < RuneSelf" using lo by (simp add: ucast_RuneSelf not_le flip: not_le)
        then have nr: "\<not> RuneSelf \<le> ucast (byte_of (s ! start))" by (simp add: not_le)
        have ih: "case TrimSpace_start s (start + 1) of
            Inl res \<Rightarrow> res = TrimFunc (drop (start + 1) s) IsSpace
          | Inr st \<Rightarrow> start + 1 \<le> st \<and> st \<le> length s \<and>
              TrimLeftFunc (drop (start + 1) s) IsSpace = drop st s \<and>
              (st < length s \<longrightarrow> solid_byte (s ! st))"
          using "1.IH" [OF True refl nr nz] True by simp
        show ?thesis
          using ih lo nz
          by (auto simp: step skip TrimFunc_def split: sum.splits)
      qed
    qed
  qed
qed

lemma TrimSpace_stop_step:
  assumes "start < stop"
  shows "TrimSpace_stop s start stop =
     (if 0x80 \<le> byte_of (s ! (stop - 1))
      then Inl (TrimFunc (take (stop - start) (drop start s)) IsSpace)
      else if asciiSpace (byte_of (s ! (stop - 1))) = 0 then Inr stop
      else TrimSpace_stop s start (stop - 1))"
  using assms by (subst TrimSpace_stop.simps) (simp add: Let_def ucast_RuneSelf)

lemma TrimSpace_stop_end:
  "stop \<le> start \<Longrightarrow> TrimSpace_stop s start stop = Inr stop"
  by (subst TrimSpace_stop.simps) simp

lemma window_snoc:
  assumes "start < stop" and "stop \<le> length s"
  shows "take (stop - start) (drop start s) =
         take (stop - 1 - start) (drop start s) @ [s ! (stop - 1)]"
proof -
  have "stop - start = Suc (stop - 1 - start)" using assms by simp
  moreover have "stop - 1 - start < length (drop start s)" using assms by simp
  moreover have "drop start s ! (stop - 1 - start) = s ! (stop - 1)" using assms by simp
  ultimately show ?thesis by (simp only: take_Suc_conv_app_nth)
qed

lemma window_hd:
  assumes "start < stop" and "stop \<le> length s"
  shows "take (stop - start) (drop start s) =
         s ! start # take (stop - start - 1) (drop (Suc start) s)"
proof -
  have "drop start s = s ! start # drop (Suc start) s"
    using assms by (simp add: Cons_nth_drop_Suc)
  moreover have "stop - start = Suc (stop - start - 1)" using assms by simp
  ultimately show ?thesis by (metis take_Suc_Cons)
qed

lemma TrimSpace_stop_spec:
  "start \<le> stop \<Longrightarrow> stop \<le> length s \<Longrightarrow> (start < length s \<longrightarrow> solid_byte (s ! start)) \<Longrightarrow>
   (case TrimSpace_stop s start stop of
      Inl res \<Rightarrow> res = TrimRightFunc (take (stop - start) (drop start s)) IsSpace
    | Inr st \<Rightarrow> start \<le> st \<and> st \<le> stop \<and>
        TrimRightFunc (take (stop - start) (drop start s)) IsSpace =
          take (st - start) (drop start s))"
proof (induction s start stop rule: TrimSpace_stop.induct)
  case (1 s start stop)
  show ?case
  proof (cases "start < stop")
    case False
    with "1.prems" show ?thesis
      by (simp add: TrimSpace_stop_end TrimRightFunc_Nil)
  next
    case True
    note step = TrimSpace_stop_step [OF True]
    let ?y = "take (stop - start) (drop start s)"
    let ?y' = "take (stop - 1 - start) (drop start s)"
    let ?c = "s ! (stop - 1)"
    have sn: "?y = ?y' @ [?c]" using window_snoc [OF True "1.prems"(2)] .
    have sb: "solid_byte (s ! start)" using True "1.prems" by simp
    show ?thesis
    proof (cases "0x80 \<le> byte_of ?c")
      case hi: True
      have "TrimLeftFunc ?y IsSpace = ?y"
        using TrimLeftFunc_solid_byte [OF sb] window_hd [OF True "1.prems"(2)] by simp
      with hi show ?thesis by (simp add: step TrimFunc_def)
    next
      case lo: False
      show ?thesis
      proof (cases "asciiSpace (byte_of ?c) = 0")
        case z: True
        from lo z have "solid_byte ?c" by (simp add: solid_byte_def not_le)
        from TrimRightFunc_solid_byte [OF this, of ?y']
        have "TrimRightFunc ?y IsSpace = ?y" by (simp only: sn)
        with lo z True show ?thesis by (simp add: step)
      next
        case nz: False
        have skip: "TrimRightFunc ?y IsSpace = TrimRightFunc ?y' IsSpace"
          using TrimRightFunc_skip [OF asciiSpace_encoding [OF nz], of ?y'] by (simp only: sn)
        have nr: "\<not> RuneSelf \<le> ucast (byte_of ?c)" using lo by (simp add: ucast_RuneSelf)
        have ih: "case TrimSpace_stop s start (stop - 1) of
            Inl res \<Rightarrow> res = TrimRightFunc ?y' IsSpace
          | Inr st \<Rightarrow> start \<le> st \<and> st \<le> stop - 1 \<and>
              TrimRightFunc ?y' IsSpace = take (st - start) (drop start s)"
          using "1.IH" [OF True refl nr nz] True "1.prems" by simp
        show ?thesis
          using ih lo nz
          by (auto simp: step skip split: sum.splits)
      qed
    qed
  qed
qed

text \<open>
  The fast path changes nothing: \<^verbatim>\<open>TrimSpace\<close> is \<^verbatim>\<open>TrimFunc\<close> with \<^verbatim>\<open>IsSpace\<close>, and so it
  is the trimming of the specification, for every sequence of bytes, valid UTF-8 or not.
\<close>

lemma TrimSpace_TrimFunc: "TrimSpace s = TrimFunc s IsSpace"
proof (cases "TrimSpace_start s 0")
  case (Inl res)
  with TrimSpace_start_spec [of 0 s] show ?thesis
    by (simp add: TrimSpace_def)
next
  case (Inr st)
  with TrimSpace_start_spec [of 0 s]
  have st: "st \<le> length s" and l: "TrimLeftFunc s IsSpace = drop st s"
    and sb: "st < length s \<longrightarrow> solid_byte (s ! st)" by simp_all
  have w: "take (length s - st) (drop st s) = drop st s" by simp
  show ?thesis
  proof (cases "TrimSpace_stop s st (length s)")
    case il: (Inl res)
    with TrimSpace_stop_spec [OF st le_refl sb] Inr show ?thesis
      by (simp add: TrimSpace_def TrimFunc_def l w)
  next
    case ir: (Inr stop)
    with TrimSpace_stop_spec [OF st le_refl sb]
    have r: "TrimRightFunc (drop st s) IsSpace = take (stop - st) (drop st s)"
      by (simp add: w)
    show ?thesis
      using Inr ir by (simp add: TrimSpace_def TrimFunc_def l r)
  qed
qed

lemma TrimSpace_spec: "TrimSpace s = trim_spec s"
  by (simp add: TrimSpace_TrimFunc TrimFunc_spec)

section \<open>White space and solid texts\<close>

text \<open>
  No encoding of white space is a prefix or a suffix of another one, so a text starts with at
  most one of them and ends with at most one of them.
\<close>

lemma prefix_same_length:
  assumes "prefix e s" and "prefix e' s" and "length e = length e'"
  shows "e = e'"
  using assms by (metis append_eq_append_conv prefix_def)

lemma suffix_same_length:
  assumes "suffix e s" and "suffix e' s" and "length e = length e'"
  shows "e = e'"
  using assms by (metis append_eq_append_conv suffix_def)

lemma unique_space_prefix:
  assumes "e \<in> set space_encodings" "prefix e s" "e' \<in> set space_encodings" "prefix e' s"
  shows "e = e'"
proof -
  from assms(2) obtain r where r: "e @ r = s" by (auto simp: prefix_def)
  from assms(4) obtain r' where r': "e' @ r' = s" by (auto simp: prefix_def)
  from DecodeRune_space_encoding [OF assms(1), of r] DecodeRune_space_encoding [OF assms(3), of r']
  have "length e = length e'" by (simp add: r r')
  with assms(2,4) show ?thesis by (rule prefix_same_length)
qed

lemma unique_space_suffix:
  assumes "e \<in> set space_encodings" "suffix e s" "e' \<in> set space_encodings" "suffix e' s"
  shows "e = e'"
proof -
  from assms(2) obtain r where r: "r @ e = s" by (auto simp: suffix_def)
  from assms(4) obtain r' where r': "r' @ e' = s" by (auto simp: suffix_def)
  from DecodeLastRune_space_encoding [OF assms(1), of r]
    DecodeLastRune_space_encoding [OF assms(3), of r']
  have "length e = length e'" by (simp add: r r')
  with assms(2,4) show ?thesis by (rule suffix_same_length)
qed

lemma trim_leading_none:
  "(\<forall>e\<in>set space_encodings. \<not> prefix e s) \<Longrightarrow> trim_leading s = s"
  by (subst trim_leading.simps) (simp add: find_None_iff [THEN iffD2])

lemma trim_trailing_none:
  "(\<forall>e\<in>set space_encodings. \<not> suffix e s) \<Longrightarrow> trim_trailing s = s"
  by (subst trim_trailing.simps) (simp add: find_None_iff [THEN iffD2])

lemma trim_leading_skip:
  assumes "e \<in> set space_encodings"
  shows "trim_leading (e @ s) = trim_leading s"
proof -
  have "find (\<lambda>e'. prefix e' (e @ s)) space_encodings \<noteq> None"
    using assms by (auto simp: find_None_iff)
  then obtain e' where f: "find (\<lambda>e'. prefix e' (e @ s)) space_encodings = Some e'" by auto
  then have "e' \<in> set space_encodings" "prefix e' (e @ s)" by (auto simp: find_Some_iff)
  with unique_space_prefix [OF assms _ this] have "e' = e" by simp
  with f show ?thesis by (subst trim_leading.simps) simp
qed

lemma trim_trailing_skip:
  assumes "e \<in> set space_encodings"
  shows "trim_trailing (s @ e) = trim_trailing s"
proof -
  have se: "suffix e (s @ e)" by (simp add: suffix_def)
  with assms have "find (\<lambda>e'. suffix e' (s @ e)) space_encodings \<noteq> None"
    by (auto simp: find_None_iff)
  then obtain e' where f: "find (\<lambda>e'. suffix e' (s @ e)) space_encodings = Some e'" by auto
  then have "e' \<in> set space_encodings" "suffix e' (s @ e)" by (auto simp: find_Some_iff)
  with unique_space_suffix [OF assms se this] have "e' = e" by simp
  with f show ?thesis by (subst trim_trailing.simps) simp
qed

lemma trim_leading_concat:
  "set es \<subseteq> set space_encodings \<Longrightarrow> trim_leading (concat es @ s) = trim_leading s"
  by (induction es) (simp_all add: trim_leading_skip)

lemma trim_trailing_concat:
  "set es \<subseteq> set space_encodings \<Longrightarrow> trim_trailing (s @ concat es) = trim_trailing s"
proof (induction es rule: rev_induct)
  case Nil
  show ?case by simp
next
  case (snoc e es)
  then have "trim_trailing ((s @ concat es) @ e) = trim_trailing (s @ concat es)"
    by (intro trim_trailing_skip) simp
  with snoc show ?case by simp
qed

text \<open>
  Trimming removes a sequence of encodings and leaves a text that has none at that end; a
  text is white space if and only if it is a sequence of encodings.
\<close>

lemma trim_leading_decomp:
  "\<exists>es. set es \<subseteq> set space_encodings \<and> s = concat es @ trim_leading s \<and>
        (\<forall>e\<in>set space_encodings. \<not> prefix e (trim_leading s))"
proof (induction s rule: trim_leading.induct)
  case (1 s)
  show ?case
  proof (cases "find (\<lambda>e. prefix e s) space_encodings")
    case None
    then have n: "\<forall>e\<in>set space_encodings. \<not> prefix e s" by (simp add: find_None_iff)
    then have "trim_leading s = s" by (rule trim_leading_none)
    with n show ?thesis by (intro exI [of _ "[]"]) simp
  next
    case (Some e)
    then have e: "e \<in> set space_encodings" "prefix e s" by (auto simp: find_Some_iff)
    then obtain r where s: "s = e @ r" by (auto simp: prefix_def)
    have t: "trim_leading (e @ r) = trim_leading r" by (rule trim_leading_skip [OF e(1)])
    from "1.IH" [OF Some] obtain es where es: "set es \<subseteq> set space_encodings"
      "r = concat es @ trim_leading r" "\<forall>e\<in>set space_encodings. \<not> prefix e (trim_leading r)"
      by (auto simp: s)
    show ?thesis
    proof (intro exI [of _ "e # es"] conjI)
      show "set (e # es) \<subseteq> set space_encodings" using e es by simp
      show "s = concat (e # es) @ trim_leading s" unfolding s t using es(2) by simp
      show "\<forall>e\<in>set space_encodings. \<not> prefix e (trim_leading s)" unfolding s t using es(3) .
    qed
  qed
qed

lemma trim_trailing_decomp:
  "\<exists>es. set es \<subseteq> set space_encodings \<and> s = trim_trailing s @ concat es \<and>
        (\<forall>e\<in>set space_encodings. \<not> suffix e (trim_trailing s))"
proof (induction s rule: trim_trailing.induct)
  case (1 s)
  show ?case
  proof (cases "find (\<lambda>e. suffix e s) space_encodings")
    case None
    then have n: "\<forall>e\<in>set space_encodings. \<not> suffix e s" by (simp add: find_None_iff)
    then have "trim_trailing s = s" by (rule trim_trailing_none)
    with n show ?thesis by (intro exI [of _ "[]"]) simp
  next
    case (Some e)
    then have e: "e \<in> set space_encodings" "suffix e s" by (auto simp: find_Some_iff)
    then obtain r where s: "s = r @ e" by (auto simp: suffix_def)
    have t: "trim_trailing (r @ e) = trim_trailing r" by (rule trim_trailing_skip [OF e(1)])
    from "1.IH" [OF Some] obtain es where es: "set es \<subseteq> set space_encodings"
      "r = trim_trailing r @ concat es" "\<forall>e\<in>set space_encodings. \<not> suffix e (trim_trailing r)"
      by (auto simp: s)
    show ?thesis
    proof (intro exI [of _ "es @ [e]"] conjI)
      show "set (es @ [e]) \<subseteq> set space_encodings" using e es by simp
      show "s = trim_trailing s @ concat (es @ [e])" unfolding s t using es(2) by simp
      show "\<forall>e\<in>set space_encodings. \<not> suffix e (trim_trailing s)" unfolding s t using es(3) .
    qed
  qed
qed

lemma whitespace_iff:
  "whitespace t = (\<exists>es. set es \<subseteq> set space_encodings \<and> t = concat es)"
proof
  assume "whitespace t"
  with trim_leading_decomp [of t] show "\<exists>es. set es \<subseteq> set space_encodings \<and> t = concat es"
    by (auto simp: whitespace_def)
next
  assume "\<exists>es. set es \<subseteq> set space_encodings \<and> t = concat es"
  then obtain es where "set es \<subseteq> set space_encodings" "t = concat es" by auto
  with trim_leading_concat [of es "[]"] trim_leading_none [of "[]"]
  show "whitespace t" by (simp add: whitespace_def space_encodings_nonempty)
qed

lemma whitespace_Nil: "whitespace []"
  by (simp add: whitespace_iff) (rule exI [of _ "[]"], simp)

lemma whitespace_append: "whitespace a \<Longrightarrow> whitespace b \<Longrightarrow> whitespace (a @ b)"
proof -
  assume "whitespace a" "whitespace b"
  then obtain as bs where "set as \<subseteq> set space_encodings" "a = concat as"
    "set bs \<subseteq> set space_encodings" "b = concat bs" by (auto simp: whitespace_iff)
  then have "set (as @ bs) \<subseteq> set space_encodings \<and> a @ b = concat (as @ bs)" by simp
  then show ?thesis unfolding whitespace_iff by blast
qed

lemma whitespace_encoding: "e \<in> set space_encodings \<Longrightarrow> whitespace e"
  unfolding whitespace_iff by (rule exI [of _ "[e]"]) simp

lemma whitespace_start:
  assumes "whitespace r" and "r \<noteq> []"
  shows "\<not> cont (byte_of (hd r))"
proof -
  from assms(1) obtain es where es: "set es \<subseteq> set space_encodings" "r = concat es"
    by (auto simp: whitespace_iff)
  with assms(2) obtain e es' where "es = e # es'" by (cases es) auto
  with es have e: "e \<in> set space_encodings" and r: "r = e @ concat es'" by simp_all
  from space_encodings_nonempty [OF e] have "hd r = hd e" by (simp add: r)
  with space_encoding_first(1) [OF e] show ?thesis by simp
qed

lemma solid_no_prefix:
  assumes "solid c" and "c \<noteq> []" and "whitespace r"
  shows "\<forall>e\<in>set space_encodings. \<not> prefix e (c @ r)"
proof
  fix e
  assume e: "e \<in> set space_encodings"
  show "\<not> prefix e (c @ r)"
  proof
    assume "prefix e (c @ r)"
    then obtain q where q: "c @ r = e @ q" by (auto simp: prefix_def)
    from DecodeRune_space_encoding [OF e, of q] have sp: "IsSpace (fst (DecodeRune (c @ r)))"
      by (simp add: q)
    have "DecodeRune (c @ r) = DecodeRune c"
    proof (cases r)
      case Nil
      then show ?thesis by simp
    next
      case (Cons a r')
      with whitespace_start [OF assms(3)] have "\<not> cont (byte_of a)" by simp
      from DecodeRune_append_start [OF assms(2) this] Cons show ?thesis by simp
    qed
    with sp have "IsSpace (fst (DecodeRune c))" by simp
    from DecodeRune_space_prefix [OF this] assms(1) show False by (auto simp: solid_def)
  qed
qed

text \<open>
  Trimming a solid text between two runs of white space gives the solid text; every text has
  this form, with what trimming leaves as the solid text; trimming is idempotent.
\<close>

lemma trim_spec_sandwich:
  assumes "whitespace l" and "whitespace r" and "solid c"
  shows "trim_spec (l @ c @ r) = c"
proof -
  from assms(1) obtain ls where ls: "set ls \<subseteq> set space_encodings" "l = concat ls"
    by (auto simp: whitespace_iff)
  from assms(2) obtain rs where rs: "set rs \<subseteq> set space_encodings" "r = concat rs"
    by (auto simp: whitespace_iff)
  have "trim_leading (l @ c @ r) = trim_leading (c @ r)"
    using trim_leading_concat [OF ls(1)] by (simp add: ls(2))
  then have l: "trim_spec (l @ c @ r) = trim_trailing (trim_leading (c @ r))"
    by (simp only: trim_spec_def)
  show ?thesis
  proof (cases "c = []")
    case True
    with assms(2) have "trim_leading (c @ r) = []" by (simp add: whitespace_def)
    with l have "trim_spec (l @ c @ r) = trim_trailing []" by (simp only:)
    also have "trim_trailing [] = []"
      by (rule trim_trailing_none) (auto simp: space_encodings_nonempty)
    finally show ?thesis unfolding True .
  next
    case False
    from solid_no_prefix [OF assms(3) False assms(2)]
    have "trim_leading (c @ r) = c @ r" by (rule trim_leading_none)
    moreover have "trim_trailing (c @ r) = trim_trailing c"
      using trim_trailing_concat [OF rs(1)] by (simp add: rs(2))
    moreover have "trim_trailing c = c"
      using assms(3) by (intro trim_trailing_none) (simp add: solid_def)
    ultimately show ?thesis by (simp add: l)
  qed
qed

lemma trim_spec_decomp:
  "\<exists>l r. whitespace l \<and> whitespace r \<and> solid (trim_spec s) \<and> s = l @ trim_spec s @ r"
proof -
  from trim_leading_decomp [of s] obtain ls where ls: "set ls \<subseteq> set space_encodings"
    "s = concat ls @ trim_leading s" "\<forall>e\<in>set space_encodings. \<not> prefix e (trim_leading s)"
    by auto
  from trim_trailing_decomp [of "trim_leading s"] obtain rs where
    rs: "set rs \<subseteq> set space_encodings"
    "trim_leading s = trim_spec s @ concat rs"
    "\<forall>e\<in>set space_encodings. \<not> suffix e (trim_spec s)"
    by (auto simp: trim_spec_def)
  have "solid (trim_spec s)"
    unfolding solid_def
  proof (intro ballI conjI)
    fix e assume e: "e \<in> set space_encodings"
    show "\<not> suffix e (trim_spec s)" using rs(3) e by simp
    show "\<not> prefix e (trim_spec s)"
    proof
      assume "prefix e (trim_spec s)"
      then have "prefix e (trim_spec s @ concat rs)" by (rule prefix_prefix)
      with ls(3) e rs(2) show False by simp
    qed
  qed
  moreover have "whitespace (concat ls)" "whitespace (concat rs)"
    using ls(1) rs(1) by (auto simp: whitespace_iff)
  moreover have "s = concat ls @ trim_spec s @ concat rs"
    using ls(2) rs(2) by simp
  ultimately show ?thesis by blast
qed

lemma trim_spec_idem: "trim_spec (trim_spec s) = trim_spec s"
proof -
  from trim_spec_decomp [of s] have "solid (trim_spec s)" by blast
  from trim_spec_sandwich [OF whitespace_Nil whitespace_Nil this] show ?thesis by simp
qed

lemma trim_spec_append_whitespace:
  assumes "whitespace w"
  shows "trim_spec (s @ w) = trim_spec s"
proof -
  define c where "c = trim_spec s"
  from trim_spec_decomp [of s] obtain l r where
    d: "whitespace l" "whitespace r" "solid c" "s = l @ c @ r" unfolding c_def by blast
  have "trim_spec (s @ w) = trim_spec (l @ c @ (r @ w))" by (simp add: d(4))
  also have "\<dots> = c"
    using d(1) whitespace_append [OF d(2) assms] d(3) by (rule trim_spec_sandwich)
  finally show ?thesis by (simp add: c_def)
qed

lemma whitespace_newlines: "whitespace (replicate n CHR 0x0A)"
proof (induction n)
  case 0
  show ?case by (simp add: whitespace_Nil)
next
  case (Suc n)
  have "[CHR 0x0A] \<in> set space_encodings" by (simp add: space_encodings_def)
  from whitespace_append [OF whitespace_encoding [OF this] Suc] show ?case by simp
qed

section \<open>The rows of the diff\<close>

text \<open>
  With a width of at least 3 the truncation does not panic, so the table, whose cells are 38
  wide, is always printed; its rows are the rows of the indices in order.
\<close>

lemma slice_to_ok:
  "0 \<le> h \<Longrightarrow> h \<le> int (length s) \<Longrightarrow> slice_to s h = Inr (take (nat h) s)"
  by (simp add: slice_to_def)

lemma slice_to_negative: "h < 0 \<Longrightarrow> slice_to s h = Inl SliceBoundsOutOfRange"
  by (simp add: slice_to_def)

lemma truncate_long:
  assumes "3 \<le> w" and "w < int (length s)"
  shows "truncate s w = Inr (take (nat (w - 3)) s @ ''...'')"
proof -
  have "slice_to s (w - 3) = Inr (take (nat (w - 3)) s)"
    using assms by (intro slice_to_ok) auto
  with assms show ?thesis by (simp add: truncate_def)
qed

lemma truncate_never_panics_wide:
  assumes "3 \<le> w"
  shows "\<exists>t. truncate s w = Inr t"
proof (cases "w < int (length s)")
  case True
  with assms show ?thesis by (simp add: truncate_long)
next
  case False
  then show ?thesis by (simp add: truncate_def)
qed

lemma printColoredRow_total: "3 \<le> w \<Longrightarrow> \<exists>row. printColoredRow e a w = Inr row"
  using truncate_never_panics_wide [of w e] truncate_never_panics_wide [of w a]
  by (auto simp: printColoredRow_def)

lemma printPlainRow_total: "3 \<le> w \<Longrightarrow> \<exists>row. printPlainRow e a w = Inr row"
  using truncate_never_panics_wide [of w e] truncate_never_panics_wide [of w a]
  by (auto simp: printPlainRow_def)

lemma table_row_total: "3 \<le> w \<Longrightarrow> \<exists>row. table_row E A w i = Inr row"
  using printColoredRow_total [of w] printPlainRow_total [of w] by (simp add: table_row_def)

lemma diffLines_table_loop_rows:
  assumes "3 \<le> width - 2" and "i \<le> n"
  shows "\<exists>rows. diffLines_table_loop E A width n i out = Inr (out @ rows) \<and>
          map Inr rows = map (table_row E A (width - 2)) [i..<n]"
  using assms
proof (induction E A width n i out rule: diffLines_table_loop.induct)
  case (1 E A width n i out)
  show ?case
  proof (cases "i < n")
    case False
    with "1.prems" have "i = n" by simp
    then show ?thesis by (subst diffLines_table_loop.simps) simp
  next
    case True
    from table_row_total [OF "1.prems"(1), of E A i] obtain row
      where row: "table_row E A (width - 2) i = Inr row" by blast
    then have body: "(if line_at E i \<noteq> line_at A i
          then printColoredRow (line_at E i) (line_at A i) (width - 2)
          else printPlainRow (line_at E i) (line_at A i) (width - 2)) = Inr row"
      by (simp add: table_row_def)
    from "1.IH" [OF True refl refl body] "1.prems" True
    obtain rows where rows:
      "diffLines_table_loop E A width n (i + 1) (out @ [row]) = Inr ((out @ [row]) @ rows)"
      "map Inr rows = map (table_row E A (width - 2)) [i + 1..<n]" by auto
    have "diffLines_table_loop E A width n i out = Inr (out @ row # rows)"
      using True body rows(1) by (subst diffLines_table_loop.simps) (simp add: Let_def)
    moreover have "map Inr (row # rows) = map (table_row E A (width - 2)) [i..<n]"
      using True row rows(2) by (simp add: upt_conv_Cons)
    ultimately show ?thesis by blast
  qed
qed

lemma diffLines_table_total: "\<exists>d. diffLines_table expected actual = Inr d"
proof -
  let ?E = "Split expected CHR 0x0A" and ?A = "Split actual CHR 0x0A"
  let ?n = "max (length ?E) (length ?A)"
  have n: "(if length ?A > length ?E then length ?A else length ?E) = ?n" by (simp add: max_def)
  from diffLines_table_loop_rows [of 40 0 ?n ?E ?A "table_header 40"]
  obtain rows where
    "diffLines_table_loop ?E ?A 40 ?n 0 (table_header 40) = Inr (table_header 40 @ rows)"
    by auto
  then show ?thesis unfolding diffLines_table_def Let_def n by simp
qed

text \<open>The lines of the unified diff are the lines of the indices in order.\<close>

lemma diffLines_unified_loop_rows:
  "i \<le> max (length E) (length A) \<Longrightarrow>
   diffLines_unified_loop E A i out =
     out @ concat (map (unified_row E A) [i..<max (length E) (length A)])"
proof (induction E A i out rule: diffLines_unified_loop.induct)
  case (1 E A i out)
  let ?n = "max (length E) (length A)"
  show ?case
  proof (cases "i < ?n")
    case False
    with "1.prems" have "i = ?n" by simp
    then show ?thesis by (subst diffLines_unified_loop.simps) auto
  next
    case True
    then have c: "i < length E \<or> i < length A" by auto
    let ?out = "(if line_at E i \<noteq> line_at A i
                 then out @ [''- '' @ line_at E i @ [CHR 0x0A], ''+ '' @ line_at A i @ [CHR 0x0A]]
                 else out)"
    have o: "?out = out @ unified_row E A i" by (simp add: unified_row_def)
    have "diffLines_unified_loop E A i out = diffLines_unified_loop E A (i + 1) ?out"
      using c by (subst diffLines_unified_loop.simps) (simp add: Let_def)
    also have "\<dots> = ?out @ concat (map (unified_row E A) [i + 1..<?n])"
      using "1.IH" [OF c refl refl refl] True by simp
    also have "\<dots> = out @ concat (map (unified_row E A) [i..<?n])"
      using True by (simp only: o) (simp add: upt_conv_Cons)
    finally show ?thesis .
  qed
qed

lemma length_concat_rows:
  "length (concat (map (unified_row E A) [0..<n])) =
     2 * card {i. i < n \<and> line_at E i \<noteq> line_at A i}"
proof (induction n)
  case 0
  show ?case by simp
next
  case (Suc n)
  have s: "{i. i < Suc n \<and> line_at E i \<noteq> line_at A i} =
      (if line_at E n \<noteq> line_at A n then insert n {i. i < n \<and> line_at E i \<noteq> line_at A i}
       else {i. i < n \<and> line_at E i \<noteq> line_at A i})"
    by (auto simp: less_Suc_eq)
  have f: "finite {i. i < n \<and> line_at E i \<noteq> line_at A i}" by simp
  show ?case using Suc f by (simp add: s unified_row_def)
qed

section \<open>The comparison\<close>

text \<open>
  The comparison of the program is the comparison of the two texts trimmed as the
  specification words it.
\<close>

lemma compare_trim_spec:
  "compare expected actual = (if trim_spec expected = trim_spec actual then Match else Diff)"
  by (auto simp: compare_def Equal_def TrimSpace_spec)

lemma compare_example: "compare ''6'' ''5'' = Diff"
  by (simp add: compare_def Equal_def TrimSpace_def TrimSpace_start.simps TrimSpace_stop.simps
        byte_of_def asciiSpace_def RuneSelf_def)

text \<open>
  What the run function has printed when it returns after a difference: the lines of the
  comparison come last, but for the lines of the cleanup.
\<close>

lemma ends_with_refl: "\<exists>pre. t = pre @ t"
  by (rule exI [of _ "[]"]) simp

lemma ends_with_append: "\<exists>pre. ys = pre @ t \<Longrightarrow> \<exists>pre. xs @ ys = pre @ t"
proof -
  assume "\<exists>pre. ys = pre @ t"
  then obtain pre where "ys = pre @ t" by blast
  then have "xs @ ys = (xs @ pre) @ t" by simp
  then show ?thesis by blast
qed

lemma ends_with_Cons: "\<exists>pre. ys = pre @ t \<Longrightarrow> \<exists>pre. x # ys = pre @ t"
  using ends_with_append [of ys t "[x]"] by simp

lemmas ends_with = ends_with_refl ends_with_append ends_with_Cons

lemma compileAndRun_unified_diff:
  assumes "supported lang"
    and "compile_err w = None" and "open_err w = None"
    and "create_err w = None" and "execute_err w = None"
    and "read_actual w = Inr actual" and "read_expected w = Inr expected"
    and "compare expected actual = Diff"
  shows "\<exists>pre. compileAndRun_unified w lang sourceFile inputFile outputFile expectedOutputFile =
           (pre @ [Println ''Comparing outputs...'', Println ''Output differs from expected:'']
              @ diffLines_unified expected actual, None)"
proof -
  from assms(1) have "lang = ''go'' \<or> lang = ''cpp'' \<or> lang = ''rust'' \<or> lang = ''java''
      \<or> lang = ''python''" by (simp add: supported_def)
  then show ?thesis
    using assms(2-)
    by (elim disjE) (simp_all add: compileAndRun_unified_def Let_def ends_with)
qed

lemma compileAndRun_table_diff:
  assumes "supported lang"
    and "mkdirAll_err w = None" and "compile_err w = None" and "open_err w = None"
    and "create_err w = None" and "execute_err w = None"
    and "read_actual w = Inr actual" and "read_expected w = Inr expected"
    and "compare expected actual = Diff"
    and "diffLines_table expected actual = Inr d"
  shows "\<exists>pre. compileAndRun_table w lang sourceFile inputFile outputFile expectedOutputFile
           cleanup =
           Inr (pre @ [Println ''Comparing outputs...'', Println ''Output differs from expected:'']
              @ d @
              (if cleanup then
                 logVerbose w ''Removing build directory: build'' @
                 (case removeAll_err w of
                    Some err \<Rightarrow>
                      [''Warning: failed to remove build directory: '' @ err @ [CHR 0x0A]]
                  | None \<Rightarrow> [])
               else []), None)"
proof -
  from assms(1) have "lang = ''go'' \<or> lang = ''cpp'' \<or> lang = ''rust'' \<or> lang = ''java''
      \<or> lang = ''python''" by (simp add: supported_def)
  then show ?thesis
    using assms(2-)
    by (elim disjE) (simp_all add: compileAndRun_table_def Let_def ends_with)
qed

section \<open>The claims\<close>

text \<open>
  C1: for every pair of texts the comparison yields \<open>Match\<close> if and only if the two texts
  are equal byte for byte after leading and trailing white space has been trimmed from each
  whole text. Every text is a solid core between two runs of white space, and the core is what
  trimming leaves. White space inside the core is significant: two texts with solid cores
  \<open>ca\<close> and \<open>cb\<close>, whatever white space surrounds them, match if and only if \<open>ca = cb\<close>, so
  cores that differ in any byte give \<open>Diff\<close>.
\<close>

theorem compare_trimmed_equal:
  "(compare expected actual = Match) = (trim_spec expected = trim_spec actual) \<and>
   (\<exists>l r. whitespace l \<and> whitespace r \<and> solid (trim_spec expected) \<and>
      expected = l @ trim_spec expected @ r) \<and>
   (whitespace la \<and> whitespace ra \<and> solid ca \<and> whitespace lb \<and> whitespace rb \<and> solid cb \<longrightarrow>
      (compare (la @ ca @ ra) (lb @ cb @ rb) = Match) = (ca = cb))"
proof (intro conjI impI)
  show "(compare expected actual = Match) = (trim_spec expected = trim_spec actual)"
    by (simp add: compare_trim_spec)
  show "\<exists>l r. whitespace l \<and> whitespace r \<and> solid (trim_spec expected) \<and>
      expected = l @ trim_spec expected @ r"
    by (rule trim_spec_decomp)
  assume "whitespace la \<and> whitespace ra \<and> solid ca \<and> whitespace lb \<and> whitespace rb \<and> solid cb"
  then have "trim_spec (la @ ca @ ra) = ca" "trim_spec (lb @ cb @ rb) = cb"
    by (simp_all add: trim_spec_sandwich)
  then show "(compare (la @ ca @ ra) (lb @ cb @ rb) = Match) = (ca = cb)"
    by (simp add: compare_trim_spec)
qed

theorem compare_trimmed_equal_witness:
  "whitespace ''  '' \<and> whitespace ''\<newline>'' \<and> solid ''a b'' \<and>
   whitespace '''' \<and> whitespace ''\<newline>\<newline>'' \<and> solid ''a  b'' \<and>
   compare ''  a b\<newline>'' ''a  b\<newline>\<newline>'' = Diff"
proof -
  have h: "whitespace ''  '' \<and> whitespace ''\<newline>'' \<and> solid ''a b'' \<and>
      whitespace '''' \<and> whitespace ''\<newline>\<newline>'' \<and> solid ''a  b''"
    by (simp add: whitespace_def trim_leading.simps solid_def space_encodings_def suffix_def)
  from compare_trimmed_equal [of "''  a b\<newline>''" "''a  b\<newline>\<newline>''"
      "''  ''" "''\<newline>''" "''a b''" "''''" "''\<newline>\<newline>''" "''a  b''"] h
  have "(compare (''  '' @ ''a b'' @ ''\<newline>'') ('''' @ ''a  b'' @ ''\<newline>\<newline>'') = Match) =
      (''a b'' = ''a  b'')"
    by blast
  then have "compare ''  a b\<newline>'' ''a  b\<newline>\<newline>'' \<noteq> Match" by simp
  then have "compare ''  a b\<newline>'' ''a  b\<newline>\<newline>'' = Diff"
    by (cases "compare ''  a b\<newline>'' ''a  b\<newline>\<newline>''") simp_all
  with h show ?thesis by simp
qed

text \<open>
  C2: for all texts \<open>a\<close> and \<open>b\<close>, comparing \<open>a\<close> with \<open>b\<close> gives the same verdict as
  comparing the trimmed \<open>a\<close> with the trimmed \<open>b\<close>, whether the texts are trimmed as the
  specification words it or by the library function the program calls.
\<close>

theorem compare_pretrimmed:
  "compare a b = compare (trim_spec a) (trim_spec b) \<and>
   compare a b = compare (TrimSpace a) (TrimSpace b)"
  by (simp add: compare_trim_spec TrimSpace_spec trim_spec_idem)

theorem compare_pretrimmed_witness:
  "trim_spec '' 5\<newline>'' = ''5'' \<and> trim_spec ''6  '' = ''6'' \<and>
   compare '' 5\<newline>'' ''6  '' = compare ''5'' ''6''"
proof -
  have t: "trim_spec '' 5\<newline>'' = ''5''" "trim_spec ''6  '' = ''6''"
    by (simp_all add: trim_spec_def trim_leading.simps trim_trailing.simps space_encodings_def
          suffix_def)
  from compare_pretrimmed [of "'' 5\<newline>''" "''6  ''"] t show ?thesis by simp
qed

text \<open>
  C3: two texts that differ only in trailing newlines, that is a common text \<open>c\<close> followed by
  \<open>n\<close> newlines on one side and by \<open>m\<close> newlines on the other, yield \<open>Match\<close>.
\<close>

theorem compare_trailing_newlines:
  "compare (c @ replicate n CHR 0x0A) (c @ replicate m CHR 0x0A) = Match"
  by (simp add: compare_trim_spec trim_spec_append_whitespace whitespace_newlines)

theorem compare_trailing_newlines_witness: "compare ''5\<newline>'' ''5'' = Match"
  using compare_trailing_newlines [of "''5''" 1 0] by simp

text \<open>
  C4: the table splits both texts into lines at the newline and never panics. Between its
  header and its footer it has one row for every index from 0 up to, not including, the larger
  of the two line counts, in this order. The row at index \<open>i\<close> is made of the expected line at
  \<open>i\<close> and the actual line at \<open>i\<close>, where a line beyond the end of its side is the empty
  string, and it is the coloured row of a difference exactly when the two lines are not equal.
\<close>

theorem diffLines_table_rows:
  "\<exists>rows. diffLines_table expected actual = Inr (table_header 40 @ rows @ [table_footer 40]) \<and>
     map Inr rows =
       map (\<lambda>i. if line_at (Split expected CHR 0x0A) i \<noteq> line_at (Split actual CHR 0x0A) i
                then printColoredRow (line_at (Split expected CHR 0x0A) i)
                       (line_at (Split actual CHR 0x0A) i) 38
                else printPlainRow (line_at (Split expected CHR 0x0A) i)
                       (line_at (Split actual CHR 0x0A) i) 38)
           [0..<max (length (Split expected CHR 0x0A)) (length (Split actual CHR 0x0A))]"
proof -
  let ?E = "Split expected CHR 0x0A" and ?A = "Split actual CHR 0x0A"
  let ?n = "max (length ?E) (length ?A)"
  have n: "(if length ?A > length ?E then length ?A else length ?E) = ?n" by (simp add: max_def)
  from diffLines_table_loop_rows [of 40 0 ?n ?E ?A "table_header 40"]
  obtain rows where rows:
    "diffLines_table_loop ?E ?A 40 ?n 0 (table_header 40) = Inr (table_header 40 @ rows)"
    "map Inr rows = map (table_row ?E ?A 38) [0..<?n]" by auto
  have "diffLines_table expected actual = Inr (table_header 40 @ rows @ [table_footer 40])"
    unfolding diffLines_table_def Let_def n using rows(1) by simp
  moreover have "table_row ?E ?A 38 = (\<lambda>i. if line_at ?E i \<noteq> line_at ?A i
                then printColoredRow (line_at ?E i) (line_at ?A i) 38
                else printPlainRow (line_at ?E i) (line_at ?A i) 38)"
    by (rule ext) (simp add: table_row_def)
  ultimately show ?thesis using rows(2) by auto
qed

text \<open>
  The two examples of the specification. For the expected lines 1, 2, 3 and the actual lines 1, 9, 3 the row
  at index 1, and no other, is coloured. For two expected lines a, b and four actual lines a,
  b, the empty line, d, the rows at the indices 2 and 3 have an empty expected cell; the row
  at index 2 is plain, because the actual line is empty too, and the row at index 3 is
  coloured.
\<close>

theorem diffLines_table_rows_witness:
  "diffLines_table ''1\<newline>2\<newline>3'' ''1\<newline>9\<newline>3'' =
     Inr (table_header 40 @
       [box_v @ '' 1'' @ replicate 37 CHR '' '' @ '' '' @ box_v @
          '' 1'' @ replicate 37 CHR '' '' @ '' '' @ box_v @ ''\<newline>'',
        box_v @ '' '' @ red @ ''2'' @ replicate 37 CHR '' '' @ reset @ '' '' @ box_v @
          '' '' @ green @ ''9'' @ replicate 37 CHR '' '' @ reset @ '' '' @ box_v @ ''\<newline>'',
        box_v @ '' 3'' @ replicate 37 CHR '' '' @ '' '' @ box_v @
          '' 3'' @ replicate 37 CHR '' '' @ '' '' @ box_v @ ''\<newline>''] @
       [table_footer 40]) \<and>
   diffLines_table ''a\<newline>b'' ''a\<newline>b\<newline>\<newline>d'' =
     Inr (table_header 40 @
       [box_v @ '' a'' @ replicate 37 CHR '' '' @ '' '' @ box_v @
          '' a'' @ replicate 37 CHR '' '' @ '' '' @ box_v @ ''\<newline>'',
        box_v @ '' b'' @ replicate 37 CHR '' '' @ '' '' @ box_v @
          '' b'' @ replicate 37 CHR '' '' @ '' '' @ box_v @ ''\<newline>'',
        box_v @ '' '' @ replicate 38 CHR '' '' @ '' '' @ box_v @
          '' '' @ replicate 38 CHR '' '' @ '' '' @ box_v @ ''\<newline>'',
        box_v @ '' '' @ red @ replicate 38 CHR '' '' @ reset @ '' '' @ box_v @
          '' '' @ green @ ''d'' @ replicate 37 CHR '' '' @ reset @ '' '' @ box_v @ ''\<newline>''] @
       [table_footer 40])"
proof -
  have s: "Split ''1\<newline>2\<newline>3'' CHR 0x0A = [''1'', ''2'', ''3'']"
    "Split ''1\<newline>9\<newline>3'' CHR 0x0A = [''1'', ''9'', ''3'']"
    "Split ''a\<newline>b'' CHR 0x0A = [''a'', ''b'']"
    "Split ''a\<newline>b\<newline>\<newline>d'' CHR 0x0A = [''a'', ''b'', '''', ''d'']"
    by (simp_all add: Split_def Count_def)
  have u: "[0..<3] = [0, 1, 2]" "[0..<4] = [0, 1, 2, 3]" by (simp_all add: upt_rec)
  have r: "RuneCountInString ''1'' = 1" "RuneCountInString ''2'' = 1"
    "RuneCountInString ''3'' = 1" "RuneCountInString ''9'' = 1"
    "RuneCountInString ''a'' = 1" "RuneCountInString ''b'' = 1"
    "RuneCountInString ''d'' = 1" "RuneCountInString '''' = 0"
    by (simp_all add: RuneCountInString_def RuneCountInString_loop.simps byte_of_def)
  from diffLines_table_rows [of "''1\<newline>2\<newline>3''" "''1\<newline>9\<newline>3''"]
  obtain rows where
    d: "diffLines_table ''1\<newline>2\<newline>3'' ''1\<newline>9\<newline>3'' =
          Inr (table_header 40 @ rows @ [table_footer 40])"
    and m: "map Inr rows =
       map (\<lambda>i. if line_at [''1'', ''2'', ''3''] i \<noteq> line_at [''1'', ''9'', ''3''] i
                then printColoredRow (line_at [''1'', ''2'', ''3''] i)
                       (line_at [''1'', ''9'', ''3''] i) 38
                else printPlainRow (line_at [''1'', ''2'', ''3''] i)
                       (line_at [''1'', ''9'', ''3''] i) 38)
           [0..<max (length [''1'', ''2'', ''3'']) (length [''1'', ''9'', ''3''])]"
    unfolding s by blast
  from m have "(map Inr rows :: (panic + string) list) =
      [Inr (box_v @ '' 1'' @ replicate 37 CHR '' '' @ '' '' @ box_v @
          '' 1'' @ replicate 37 CHR '' '' @ '' '' @ box_v @ ''\<newline>''),
       Inr (box_v @ '' '' @ red @ ''2'' @ replicate 37 CHR '' '' @ reset @ '' '' @ box_v @
          '' '' @ green @ ''9'' @ replicate 37 CHR '' '' @ reset @ '' '' @ box_v @ ''\<newline>''),
       Inr (box_v @ '' 3'' @ replicate 37 CHR '' '' @ '' '' @ box_v @
          '' 3'' @ replicate 37 CHR '' '' @ '' '' @ box_v @ ''\<newline>'')]"
    by (simp add: u line_at_def printColoredRow_def printPlainRow_def truncate_def
          doPrintf_minus_star_s_def tooLarge_def padString_def r)
  then have "rows =
      [box_v @ '' 1'' @ replicate 37 CHR '' '' @ '' '' @ box_v @
          '' 1'' @ replicate 37 CHR '' '' @ '' '' @ box_v @ ''\<newline>'',
       box_v @ '' '' @ red @ ''2'' @ replicate 37 CHR '' '' @ reset @ '' '' @ box_v @
          '' '' @ green @ ''9'' @ replicate 37 CHR '' '' @ reset @ '' '' @ box_v @ ''\<newline>'',
       box_v @ '' 3'' @ replicate 37 CHR '' '' @ '' '' @ box_v @
          '' 3'' @ replicate 37 CHR '' '' @ '' '' @ box_v @ ''\<newline>'']"
    by (auto simp: map_eq_Cons_conv)
  with d have first: "diffLines_table ''1\<newline>2\<newline>3'' ''1\<newline>9\<newline>3'' =
     Inr (table_header 40 @
       [box_v @ '' 1'' @ replicate 37 CHR '' '' @ '' '' @ box_v @
          '' 1'' @ replicate 37 CHR '' '' @ '' '' @ box_v @ ''\<newline>'',
        box_v @ '' '' @ red @ ''2'' @ replicate 37 CHR '' '' @ reset @ '' '' @ box_v @
          '' '' @ green @ ''9'' @ replicate 37 CHR '' '' @ reset @ '' '' @ box_v @ ''\<newline>'',
        box_v @ '' 3'' @ replicate 37 CHR '' '' @ '' '' @ box_v @
          '' 3'' @ replicate 37 CHR '' '' @ '' '' @ box_v @ ''\<newline>''] @
       [table_footer 40])"
    by simp
  from diffLines_table_rows [of "''a\<newline>b''" "''a\<newline>b\<newline>\<newline>d''"]
  obtain rows' where
    d': "diffLines_table ''a\<newline>b'' ''a\<newline>b\<newline>\<newline>d'' =
          Inr (table_header 40 @ rows' @ [table_footer 40])"
    and m': "map Inr rows' =
       map (\<lambda>i. if line_at [''a'', ''b''] i \<noteq> line_at [''a'', ''b'', '''', ''d''] i
                then printColoredRow (line_at [''a'', ''b''] i)
                       (line_at [''a'', ''b'', '''', ''d''] i) 38
                else printPlainRow (line_at [''a'', ''b''] i)
                       (line_at [''a'', ''b'', '''', ''d''] i) 38)
           [0..<max (length [''a'', ''b'']) (length [''a'', ''b'', '''', ''d''])]"
    unfolding s by blast
  from m' have "(map Inr rows' :: (panic + string) list) =
      [Inr (box_v @ '' a'' @ replicate 37 CHR '' '' @ '' '' @ box_v @
          '' a'' @ replicate 37 CHR '' '' @ '' '' @ box_v @ ''\<newline>''),
       Inr (box_v @ '' b'' @ replicate 37 CHR '' '' @ '' '' @ box_v @
          '' b'' @ replicate 37 CHR '' '' @ '' '' @ box_v @ ''\<newline>''),
       Inr (box_v @ '' '' @ replicate 38 CHR '' '' @ '' '' @ box_v @
          '' '' @ replicate 38 CHR '' '' @ '' '' @ box_v @ ''\<newline>''),
       Inr (box_v @ '' '' @ red @ replicate 38 CHR '' '' @ reset @ '' '' @ box_v @
          '' '' @ green @ ''d'' @ replicate 37 CHR '' '' @ reset @ '' '' @ box_v @ ''\<newline>'')]"
    by (simp add: u line_at_def printColoredRow_def printPlainRow_def truncate_def
          doPrintf_minus_star_s_def tooLarge_def padString_def r)
  then have "rows' =
      [box_v @ '' a'' @ replicate 37 CHR '' '' @ '' '' @ box_v @
          '' a'' @ replicate 37 CHR '' '' @ '' '' @ box_v @ ''\<newline>'',
       box_v @ '' b'' @ replicate 37 CHR '' '' @ '' '' @ box_v @
          '' b'' @ replicate 37 CHR '' '' @ '' '' @ box_v @ ''\<newline>'',
       box_v @ '' '' @ replicate 38 CHR '' '' @ '' '' @ box_v @
          '' '' @ replicate 38 CHR '' '' @ '' '' @ box_v @ ''\<newline>'',
       box_v @ '' '' @ red @ replicate 38 CHR '' '' @ reset @ '' '' @ box_v @
          '' '' @ green @ ''d'' @ replicate 37 CHR '' '' @ reset @ '' '' @ box_v @ ''\<newline>'']"
    by (auto simp: map_eq_Cons_conv)
  with d' have "diffLines_table ''a\<newline>b'' ''a\<newline>b\<newline>\<newline>d'' =
     Inr (table_header 40 @
       [box_v @ '' a'' @ replicate 37 CHR '' '' @ '' '' @ box_v @
          '' a'' @ replicate 37 CHR '' '' @ '' '' @ box_v @ ''\<newline>'',
        box_v @ '' b'' @ replicate 37 CHR '' '' @ '' '' @ box_v @
          '' b'' @ replicate 37 CHR '' '' @ '' '' @ box_v @ ''\<newline>'',
        box_v @ '' '' @ replicate 38 CHR '' '' @ '' '' @ box_v @
          '' '' @ replicate 38 CHR '' '' @ '' '' @ box_v @ ''\<newline>'',
        box_v @ '' '' @ red @ replicate 38 CHR '' '' @ reset @ '' '' @ box_v @
          '' '' @ green @ ''d'' @ replicate 37 CHR '' '' @ reset @ '' '' @ box_v @ ''\<newline>''] @
       [table_footer 40])"
    by simp
  with first show ?thesis by (rule conjI)
qed

text \<open>
  C5, as stated for every width, fails: a width below 3 makes the slice bound negative.
  Here the line is longer than the width 2 and the call panics instead of returning a
  text of length 2.
\<close>

theorem truncate_rule_counterexample:
  "int (length ''abcd'') > 2 \<and> truncate ''abcd'' 2 = Inl SliceBoundsOutOfRange"
  by (simp add: truncate_def slice_to_def)

text \<open>
  C5 (amended): for every line \<open>s\<close> and every width \<open>w\<close> of at least 3, if the length of
  \<open>s\<close> exceeds \<open>w\<close> then \<open>truncate s w\<close> returns the first \<open>w - 3\<close> bytes of \<open>s\<close> followed
  by the three-byte marker \<open>...\<close>, and the result has length exactly \<open>w\<close>.
\<close>

theorem truncate_rule:
  assumes "3 \<le> w" and "w < int (length s)"
  shows "\<exists>t. truncate s w = Inr t \<and> t = take (nat (w - 3)) s @ ''...'' \<and> int (length t) = w"
proof -
  have "int (length (take (nat (w - 3)) s @ ''...'')) = w"
    using assms by (simp add: min_def)
  with truncate_long [OF assms] show ?thesis by simp
qed

theorem truncate_rule_witness:
  "(3::int) \<le> 10 \<and> 10 < int (length (replicate 50 CHR ''x'')) \<and>
   truncate (replicate 50 CHR ''x'') 10 = Inr ''xxxxxxx...''"
proof -
  have h1: "(3::int) \<le> 10" by simp
  have h2: "10 < int (length (replicate 50 CHR ''x''))" by simp
  have t: "take (nat (10 - 3)) (replicate 50 CHR ''x'') = ''xxxxxxx''"
    by (simp add: eval_nat_numeral)
  from truncate_rule [OF h1 h2] t h1 h2 show ?thesis by simp
qed

text \<open>
  C6: the unified diff writes its two header lines and then, for every index from 0 up to,
  not including, the larger of the two line counts, in this order, either the expected line
  after \<open>- \<close> followed by the actual line after \<open>+ \<close>, when the two lines at the index are
  not equal, or nothing. So the number of lines written after the header is twice the number
  of indices at which the lines differ: one pair for each of them.
\<close>

theorem diffLines_unified_rows:
  "diffLines_unified expected actual =
     [''--- expected_output'' @ [CHR 0x0A], ''+++ actual_output'' @ [CHR 0x0A]] @
     concat (map (\<lambda>i. if line_at (Split expected CHR 0x0A) i \<noteq> line_at (Split actual CHR 0x0A) i
                        then [''- '' @ line_at (Split expected CHR 0x0A) i @ [CHR 0x0A],
                              ''+ '' @ line_at (Split actual CHR 0x0A) i @ [CHR 0x0A]]
                        else [])
       [0..<max (length (Split expected CHR 0x0A)) (length (Split actual CHR 0x0A))]) \<and>
   length (diffLines_unified expected actual) =
     2 + 2 * card {i. i < max (length (Split expected CHR 0x0A)) (length (Split actual CHR 0x0A)) \<and>
                      line_at (Split expected CHR 0x0A) i \<noteq> line_at (Split actual CHR 0x0A) i}"
proof -
  let ?E = "Split expected CHR 0x0A" and ?A = "Split actual CHR 0x0A"
  let ?n = "max (length ?E) (length ?A)"
  have u: "unified_row ?E ?A = (\<lambda>i. if line_at ?E i \<noteq> line_at ?A i
      then [''- '' @ line_at ?E i @ [CHR 0x0A], ''+ '' @ line_at ?A i @ [CHR 0x0A]] else [])"
    by (rule ext) (simp add: unified_row_def)
  have d: "diffLines_unified expected actual =
      [''--- expected_output'' @ [CHR 0x0A], ''+++ actual_output'' @ [CHR 0x0A]] @
      concat (map (unified_row ?E ?A) [0..<?n])"
    unfolding diffLines_unified_def Let_def
    by (rule diffLines_unified_loop_rows) simp
  have "length (diffLines_unified expected actual) =
      2 + 2 * card {i. i < ?n \<and> line_at ?E i \<noteq> line_at ?A i}"
    unfolding d by (simp add: length_concat_rows del: length_concat)
  with d show ?thesis unfolding u by blast
qed

theorem diffLines_unified_rows_witness:
  "diffLines_unified ''1\<newline>2\<newline>3'' ''1\<newline>9\<newline>3'' =
     [''--- expected_output\<newline>'', ''+++ actual_output\<newline>'', ''- 2\<newline>'', ''+ 9\<newline>'']"
proof -
  have s: "Split ''1\<newline>2\<newline>3'' CHR 0x0A = [''1'', ''2'', ''3'']"
    "Split ''1\<newline>9\<newline>3'' CHR 0x0A = [''1'', ''9'', ''3'']"
    by (simp_all add: Split_def Count_def)
  have u: "[0..<3] = [0, 1, 2]" by (simp add: upt_rec)
  from diffLines_unified_rows [of "''1\<newline>2\<newline>3''" "''1\<newline>9\<newline>3''"]
  show ?thesis unfolding s by (simp add: u line_at_def)
qed

text \<open>C7: for every text \<open>a\<close>, comparing \<open>a\<close> with itself yields \<open>Match\<close>.\<close>

theorem compare_refl: "compare a a = Match"
  by (simp add: compare_def Equal_def)

theorem compare_refl_witness: "compare ''1 2\<newline>'' ''1 2\<newline>'' = Match"
  by (rule compare_refl)

text \<open>
  C8: a difference is not an error. When the language is supported, every call to the
  operating system up to the comparison succeeds and the two files that were read compare as
  \<open>Diff\<close>, the run function of either revision renders the diff and then returns the
  \<^verbatim>\<open>nil\<close> error. The older revision prints, after what it printed before, the line that
  announces the comparison, the line that announces the difference and the whole unified
  diff, and nothing else. The newer revision does not panic; it prints the two lines, the whole
  table, and then only what the removal of the build directory prints, whose failure is a
  warning and no error either.
\<close>

theorem diff_is_not_an_error:
  assumes "supported lang"
    and "mkdirAll_err w = None" and "compile_err w = None" and "open_err w = None"
    and "create_err w = None" and "execute_err w = None"
    and "read_actual w = Inr actual" and "read_expected w = Inr expected"
    and "compare expected actual = Diff"
  shows "(\<exists>pre d. diffLines_table expected actual = Inr d \<and>
            compileAndRun_table w lang sourceFile inputFile outputFile expectedOutputFile cleanup =
              Inr (pre @
                   [Println ''Comparing outputs...'', Println ''Output differs from expected:'']
                   @ d @
                   (if cleanup then
                      logVerbose w ''Removing build directory: build'' @
                      (case removeAll_err w of
                         Some err \<Rightarrow>
                           [''Warning: failed to remove build directory: '' @ err @ [CHR 0x0A]]
                       | None \<Rightarrow> [])
                    else []), None)) \<and>
         (\<exists>pre. compileAndRun_unified w lang sourceFile inputFile outputFile expectedOutputFile =
            (pre @ [Println ''Comparing outputs...'', Println ''Output differs from expected:'']
               @ diffLines_unified expected actual, None))"
proof
  obtain d where d: "diffLines_table expected actual = Inr d"
    using diffLines_table_total by blast
  from compileAndRun_table_diff [OF assms d] d
  show "\<exists>pre d. diffLines_table expected actual = Inr d \<and>
            compileAndRun_table w lang sourceFile inputFile outputFile expectedOutputFile cleanup =
              Inr (pre @
                   [Println ''Comparing outputs...'', Println ''Output differs from expected:'']
                   @ d @
                   (if cleanup then
                      logVerbose w ''Removing build directory: build'' @
                      (case removeAll_err w of
                         Some err \<Rightarrow>
                           [''Warning: failed to remove build directory: '' @ err @ [CHR 0x0A]]
                       | None \<Rightarrow> [])
                    else []), None)"
    by blast
  from assms show "\<exists>pre. compileAndRun_unified w lang sourceFile inputFile outputFile
      expectedOutputFile =
            (pre @ [Println ''Comparing outputs...'', Println ''Output differs from expected:'']
               @ diffLines_unified expected actual, None)"
    by (intro compileAndRun_unified_diff)
qed

theorem diff_is_not_an_error_witness:
  "supported ''python'' \<and> compare ''6'' ''5'' = Diff \<and>
   compileAndRun_unified
     \<lparr>verboseFlag = False, baseName = ''sol'', joinBuild = ''build/sol'', mkdirAll_err = None,
      compile_err = None, open_err = None, create_err = None, execute_err = None,
      read_actual = Inr ''5'', read_expected = Inr ''6'', removeAll_err = Some ''busy''\<rparr>
     ''python'' ''sol.py'' ''in.txt'' ''out.txt'' ''exp.txt'' =
     ([''Python doesn'' @ [CHR 0xE2, CHR 0x80, CHR 0x99] @ ''t require compilation.\<newline>'',
       ''Executing...\<newline>'', ''Comparing outputs...\<newline>'',
       ''Output differs from expected:\<newline>'',
       ''--- expected_output\<newline>'', ''+++ actual_output\<newline>'', ''- 6\<newline>'', ''+ 5\<newline>''],
      None) \<and>
   compileAndRun_table
     \<lparr>verboseFlag = False, baseName = ''sol'', joinBuild = ''build/sol'', mkdirAll_err = None,
      compile_err = None, open_err = None, create_err = None, execute_err = None,
      read_actual = Inr ''5'', read_expected = Inr ''6'', removeAll_err = Some ''busy''\<rparr>
     ''python'' ''sol.py'' ''in.txt'' ''out.txt'' ''exp.txt'' True =
     Inr ([''Executing...\<newline>'', ''Comparing outputs...\<newline>'',
           ''Output differs from expected:\<newline>''] @
          table_header 40 @
          [box_v @ '' '' @ red @ ''6'' @ replicate 37 CHR '' '' @ reset @ '' '' @ box_v @
             '' '' @ green @ ''5'' @ replicate 37 CHR '' '' @ reset @ '' '' @ box_v @ ''\<newline>'',
           table_footer 40,
           ''Warning: failed to remove build directory: busy\<newline>''],
          None)"
proof -
  let ?w = "\<lparr>verboseFlag = False, baseName = ''sol'', joinBuild = ''build/sol'',
      mkdirAll_err = None, compile_err = None, open_err = None, create_err = None,
      execute_err = None, read_actual = Inr ''5'', read_expected = Inr ''6'',
      removeAll_err = Some ''busy''\<rparr>"
  have s: "supported ''python''" by (simp add: supported_def)
  have c: "compare ''6'' ''5'' = Diff" by (rule compare_example)
  have u: "diffLines_unified ''6'' ''5'' =
      [''--- expected_output\<newline>'', ''+++ actual_output\<newline>'', ''- 6\<newline>'', ''+ 5\<newline>'']"
    by (simp add: diffLines_unified_def Split_def Count_def diffLines_unified_loop.simps
          line_at_def)
  have r: "RuneCountInString ''6'' = 1" "RuneCountInString ''5'' = 1"
    by (simp_all add: RuneCountInString_def RuneCountInString_loop.simps byte_of_def)
  have t: "diffLines_table ''6'' ''5'' =
      Inr (table_header 40 @
          [box_v @ '' '' @ red @ ''6'' @ replicate 37 CHR '' '' @ reset @ '' '' @ box_v @
             '' '' @ green @ ''5'' @ replicate 37 CHR '' '' @ reset @ '' '' @ box_v @ ''\<newline>'',
           table_footer 40])"
    by (simp add: diffLines_table_def Split_def Count_def diffLines_table_loop.simps
          line_at_def printColoredRow_def truncate_def doPrintf_minus_star_s_def tooLarge_def
          padString_def r)
  from diff_is_not_an_error [of "''python''" ?w "''5''" "''6''" "''sol.py''" "''in.txt''"
      "''out.txt''" "''exp.txt''" True] s c
  obtain pre pre' d where
    "diffLines_table ''6'' ''5'' = Inr d"
    "compileAndRun_table ?w ''python'' ''sol.py'' ''in.txt'' ''out.txt'' ''exp.txt'' True =
       Inr (pre @ [Println ''Comparing outputs...'', Println ''Output differs from expected:'']
            @ d @ logVerbose ?w ''Removing build directory: build'' @
            [''Warning: failed to remove build directory: busy\<newline>''], None)"
    "compileAndRun_unified ?w ''python'' ''sol.py'' ''in.txt'' ''out.txt'' ''exp.txt'' =
       (pre' @ [Println ''Comparing outputs...'', Println ''Output differs from expected:'']
            @ diffLines_unified ''6'' ''5'', None)"
    by auto
  moreover have "compileAndRun_unified ?w ''python'' ''sol.py'' ''in.txt'' ''out.txt''
      ''exp.txt'' =
     ([''Python doesn'' @ [CHR 0xE2, CHR 0x80, CHR 0x99] @ ''t require compilation.\<newline>'',
       ''Executing...\<newline>'', ''Comparing outputs...\<newline>'',
       ''Output differs from expected:\<newline>'',
       ''--- expected_output\<newline>'', ''+++ actual_output\<newline>'', ''- 6\<newline>'', ''+ 5\<newline>''],
      None)"
    by (simp add: compileAndRun_unified_def Let_def c u Println_def)
  moreover have "compileAndRun_table ?w ''python'' ''sol.py'' ''in.txt'' ''out.txt''
      ''exp.txt'' True =
     Inr ([''Executing...\<newline>'', ''Comparing outputs...\<newline>'',
           ''Output differs from expected:\<newline>''] @
          table_header 40 @
          [box_v @ '' '' @ red @ ''6'' @ replicate 37 CHR '' '' @ reset @ '' '' @ box_v @
             '' '' @ green @ ''5'' @ replicate 37 CHR '' '' @ reset @ '' '' @ box_v @ ''\<newline>'',
           table_footer 40,
           ''Warning: failed to remove build directory: busy\<newline>''],
          None)"
    by (simp add: compileAndRun_table_def Let_def c t Println_def logVerbose_def)
  ultimately show ?thesis using s c by simp
qed

text \<open>
  C9: for every width below 3 and every string longer than the width, \<open>truncate\<close> panics:
  the bound \<open>max - 3\<close> of the slice expression is negative, which is out of range.
\<close>

theorem truncate_narrow_panics:
  assumes "w < 3" and "w < int (length s)"
  shows "truncate s w = Inl SliceBoundsOutOfRange"
  using assms by (simp add: truncate_def slice_to_negative)

theorem truncate_narrow_panics_witness:
  "(2::int) < 3 \<and> 2 < int (length ''abc'') \<and> truncate ''abc'' 2 = Inl SliceBoundsOutOfRange"
proof -
  have h1: "(2::int) < 3" by simp
  have h2: "2 < int (length ''abc'')" by simp
  from truncate_narrow_panics [OF h1 h2] h1 h2 show ?thesis by simp
qed

text \<open>
  C10: for every string \<open>s\<close> and every width, if the length of \<open>s\<close> is at most the width
  then \<open>truncate\<close> returns \<open>s\<close> unchanged and does not panic, also for widths below 3.
\<close>

theorem truncate_fits:
  assumes "int (length s) \<le> w"
  shows "truncate s w = Inr s"
  using assms by (simp add: truncate_def)

theorem truncate_fits_witness:
  "int (length '''') \<le> 0 \<and> truncate '''' 0 = Inr ''''"
proof -
  have h: "int (length '''') \<le> 0" by simp
  from truncate_fits [OF h] h show ?thesis by simp
qed

end
